theory Spec2Isabelle
  imports Complex_Main
begin

section \<open>JavaScript numbers and strings\<close>

text \<open>
  The downloader computes with JavaScript numbers. The values that occur are byte counts
  and chunk counts (integers), \<open>NaN\<close> (what \<open>parseInt\<close> gives for a header that holds no
  number) and the infinities (\<open>downloadChunk(0, Infinity)\<close>, a division by zero). Integers
  are exact here; in the program they are exact below \<open>2^53\<close>, and for such operands the
  rounded quotient of two integers has the same ceiling as the exact one. The sign of zero
  is not represented.
\<close>

datatype number = Num int | NaN | Infinity | NegInfinity

text \<open>\<open>a < b\<close>: false as soon as one side is \<open>NaN\<close>.\<close>

fun js_lt :: "number \<Rightarrow> number \<Rightarrow> bool" where
  "js_lt (Num x) (Num y) = (x < y)"
| "js_lt NaN _ = False"
| "js_lt _ NaN = False"
| "js_lt NegInfinity NegInfinity = False"
| "js_lt NegInfinity _ = True"
| "js_lt Infinity _ = False"
| "js_lt (Num x) Infinity = True"
| "js_lt (Num x) NegInfinity = False"

text \<open>\<open>a + b\<close>, \<open>-a\<close> and \<open>a - b\<close>.\<close>

fun js_add :: "number \<Rightarrow> number \<Rightarrow> number" where
  "js_add (Num x) (Num y) = Num (x + y)"
| "js_add NaN _ = NaN"
| "js_add _ NaN = NaN"
| "js_add Infinity NegInfinity = NaN"
| "js_add NegInfinity Infinity = NaN"
| "js_add Infinity _ = Infinity"
| "js_add _ Infinity = Infinity"
| "js_add NegInfinity _ = NegInfinity"
| "js_add _ NegInfinity = NegInfinity"

fun js_neg :: "number \<Rightarrow> number" where
  "js_neg (Num x) = Num (- x)"
| "js_neg NaN = NaN"
| "js_neg Infinity = NegInfinity"
| "js_neg NegInfinity = Infinity"

definition js_sub :: "number \<Rightarrow> number \<Rightarrow> number" where
  "js_sub a b = js_add a (js_neg b)"

text \<open>\<open>Math.min(a, b)\<close>.\<close>

fun Math_min :: "number \<Rightarrow> number \<Rightarrow> number" where
  "Math_min (Num x) (Num y) = Num (min x y)"
| "Math_min NaN _ = NaN"
| "Math_min _ NaN = NaN"
| "Math_min NegInfinity _ = NegInfinity"
| "Math_min _ NegInfinity = NegInfinity"
| "Math_min Infinity b = b"
| "Math_min a Infinity = a"

text \<open>
  \<open>Math.ceil(a / b)\<close>, the only way the program divides. For integers and a divisor
  other than zero it is the ceiling of the exact quotient, \<open>- ((- a) div b)\<close> with the
  flooring \<open>div\<close> of HOL; a division by zero gives an infinity or \<open>NaN\<close>.
\<close>

fun ceil_div :: "number \<Rightarrow> number \<Rightarrow> number" where
  "ceil_div (Num a) (Num b) =
     (if b = 0 then (if 0 < a then Infinity else if a < 0 then NegInfinity else NaN)
      else Num (- ((- a) div b)))"
| "ceil_div NaN _ = NaN"
| "ceil_div _ NaN = NaN"
| "ceil_div (Num a) _ = Num 0"
| "ceil_div Infinity (Num b) = (if 0 \<le> b then Infinity else NegInfinity)"
| "ceil_div NegInfinity (Num b) = (if 0 \<le> b then NegInfinity else Infinity)"
| "ceil_div _ _ = NaN"

text \<open>Decimal digits. Header values are Latin-1 strings, one \<open>char\<close> per character.\<close>

definition isDigit :: "char \<Rightarrow> bool" where
  "isDigit c = (48 \<le> (of_char c :: int) \<and> (of_char c :: int) \<le> 57)"

definition digitValue :: "char \<Rightarrow> int" where
  "digitValue c = of_char c - 48"

definition decimalValue :: "string \<Rightarrow> int" where
  "decimalValue ds = foldl (\<lambda>acc c. 10 * acc + digitValue c) 0 ds"

text \<open>The white space \<open>parseInt\<close> skips: TAB, LF, VT, FF, CR, space and NBSP.\<close>

definition isWhiteSpace :: "char \<Rightarrow> bool" where
  "isWhiteSpace c = ((of_char c :: int) \<in> {9, 10, 11, 12, 13, 32, 160})"

text \<open>
  \<open>parseInt(s, 10)\<close>: leading white space, an optional sign, then the longest run of
  digits; \<open>NaN\<close> when there is no digit.
\<close>

definition parseInt :: "string \<Rightarrow> number" where
  "parseInt s =
     (let s1 = dropWhile isWhiteSpace s;
          neg = (take 1 s1 = ''-'');
          s2 = (if take 1 s1 = ''-'' \<or> take 1 s1 = ''+'' then drop 1 s1 else s1);
          ds = takeWhile isDigit s2
      in if ds = [] then NaN
         else if neg then Num (- decimalValue ds) else Num (decimalValue ds))"

text \<open>
  A number in a template literal, \<open>`${n}`\<close>. \<open>digits\<close> writes an integer that is not
  negative in decimal.
\<close>

function digits :: "int \<Rightarrow> string" where
  "digits n =
     (if n < 10 then [char_of (48 + n)]
      else digits (n div 10) @ [char_of (48 + n mod 10)])"
  by pat_completeness auto
termination
  by (relation "measure nat") auto

declare digits.simps [simp del]

fun showNumber :: "number \<Rightarrow> string" where
  "showNumber (Num n) = (if n < 0 then ''-'' @ digits (- n) else digits n)"
| "showNumber NaN = ''NaN''"
| "showNumber Infinity = ''Infinity''"
| "showNumber NegInfinity = ''-Infinity''"

section \<open>The downloader\<close>

text \<open>The type \<open>Chunk\<close> and the fields of a \<open>Downloadr\<close> instance.\<close>

record chunk =
  start :: number
  end' :: number

record downloadr =
  url :: string
  outputPath :: string
  chunkCount :: number
  highWaterMark :: number

text \<open>The constructor, with the defaults \<open>CHUNK_COUNT\<close> and \<open>HIGH_WATER_MARK\<close>.\<close>

definition CHUNK_COUNT :: number where
  "CHUNK_COUNT = Num 3"

definition HIGH_WATER_MARK :: number where
  "HIGH_WATER_MARK = Num (64 * 1024)"

definition newDownloadr ::
  "string \<Rightarrow> string \<Rightarrow> number option \<Rightarrow> number option \<Rightarrow> downloadr" where
  "newDownloadr u p cc hwm =
     \<lparr>url = u, outputPath = p,
      chunkCount = (case cc of Some n \<Rightarrow> n | None \<Rightarrow> CHUNK_COUNT),
      highWaterMark = (case hwm of Some n \<Rightarrow> n | None \<Rightarrow> HIGH_WATER_MARK)\<rparr>"

text \<open>
  Errors are values. \<open>Error m\<close> is \<open>new Error(m)\<close>, built by the program; \<open>SystemError m\<close>
  is an error object handed to the program by the transport or the file system.
\<close>

datatype error = Error string | SystemError string

datatype 'a promise = Pending | Fulfilled 'a | Rejected error

subsection \<open>getChunks\<close>

text \<open>
  The \<open>for\<close> loop of \<open>getChunks\<close>, with its variables as arguments. With a step of zero
  or less it never ends, so the loop is a partial function: not returning is \<open>None\<close>.
\<close>

partial_function (option) chunksLoop ::
  "number \<Rightarrow> number \<Rightarrow> number \<Rightarrow> chunk list \<Rightarrow> chunk list option" where
  "chunksLoop fileSize chunkSize i chunks =
     (if js_lt i fileSize
      then chunksLoop fileSize chunkSize (js_add i chunkSize)
             (chunks @ [\<lparr>start = i,
                          end' = Math_min (js_sub (js_add i chunkSize) (Num 1))
                                          (js_sub fileSize (Num 1))\<rparr>])
      else Some chunks)"

declare chunksLoop.simps [code]

definition getChunks :: "downloadr \<Rightarrow> number \<Rightarrow> chunk list option" where
  "getChunks d fileSize =
     chunksLoop fileSize (ceil_div fileSize (chunkCount d)) (Num 0) []"

subsection \<open>getFileSize\<close>

text \<open>
  The response to the probe, as far as \<open>getFileSize\<close> reads it:
  \<open>res.headers['content-range']\<close> and \<open>res.headers['content-length']\<close>, each a string or
  undefined.
\<close>

record headers =
  content_range :: "string option"
  content_length :: "string option"

text \<open>
  \<open>contentRange.match(/bytes \d+-\d+\/(\d+)/)\<close>, giving the first group of the leftmost
  match. \<open>matchHere\<close> matches the pattern at the start of the string: each \<open>\d+\<close> is
  followed by a character that is no digit (or by nothing), so it takes the whole run of
  digits.
\<close>

definition matchHere :: "string \<Rightarrow> string option" where
  "matchHere s =
     (if take 6 s = ''bytes '' then
        (let r1 = drop 6 s; d1 = takeWhile isDigit r1; r2 = dropWhile isDigit r1 in
         if d1 \<noteq> [] \<and> take 1 r2 = ''-'' then
           (let r3 = drop 1 r2; d2 = takeWhile isDigit r3; r4 = dropWhile isDigit r3 in
            if d2 \<noteq> [] \<and> take 1 r4 = ''/'' then
              (let d3 = takeWhile isDigit (drop 1 r4) in
               if d3 \<noteq> [] then Some d3 else None)
            else None)
         else None)
      else None)"

fun regexMatch :: "string \<Rightarrow> string option" where
  "regexMatch [] = matchHere []"
| "regexMatch (c # cs) =
     (case matchHere (c # cs) of Some group1 \<Rightarrow> Some group1 | None \<Rightarrow> regexMatch cs)"

text \<open>What the probe does: it answers, it fails at the transport, or nothing comes.\<close>

datatype probe = ProbeResponse headers | ProbeError string | ProbeSilent

text \<open>
  The response callback of \<open>getFileSize\<close>: the size it resolves with, and the instance
  with \<open>chunkCount\<close> reassigned. A header that is undefined or empty is falsy;
  \<open>sizeMatch\<close> is the match inside \<open>if (contentRange)\<close>, with \<open>None\<close> also for the
  branch not taken.
\<close>

definition sizeMatch :: "string option \<Rightarrow> string option" where
  "sizeMatch contentRange =
     (case contentRange of
        Some cr \<Rightarrow> if cr \<noteq> [] then regexMatch cr else None
      | None \<Rightarrow> None)"

definition onProbeResponse :: "downloadr \<Rightarrow> headers \<Rightarrow> number \<times> downloadr" where
  "onProbeResponse d res =
     (case sizeMatch (content_range res) of
        Some group1 \<Rightarrow>
          (let size = parseInt group1 in
           (size, d\<lparr>chunkCount :=
                      if js_lt size (Num (100 * 1024 * 1024)) then Num 1
                      else ceil_div size (Num (100 * 1024 * 1024))\<rparr>))
      | None \<Rightarrow>
          (case content_length res of
             Some contentLength \<Rightarrow>
               if contentLength \<noteq> [] then
                 (let size = parseInt contentLength in
                  (size, d\<lparr>chunkCount :=
                             if js_lt size (Num (100 * 1024 * 1024)) then Num 1
                             else ceil_div size (Num (100 * 1024 * 1024))\<rparr>))
               else (Num (- 1), d\<lparr>chunkCount := Num 1\<rparr>)
           | None \<Rightarrow> (Num (- 1), d\<lparr>chunkCount := Num 1\<rparr>)))"

definition getFileSize :: "downloadr \<Rightarrow> probe \<Rightarrow> (number \<times> downloadr) promise" where
  "getFileSize d p =
     (case p of
        ProbeResponse res \<Rightarrow> Fulfilled (onProbeResponse d res)
      | ProbeError err \<Rightarrow> Rejected (SystemError err)
      | ProbeSilent \<Rightarrow> Pending)"

subsection \<open>Events, effects and the environment\<close>

text \<open>The events of \<open>DownloadrEvents\<close>, each with the payload it is emitted with.\<close>

datatype event =
    DOWNLOAD_START
  | DOWNLOAD_COMPLETE
  | CHUNK_DOWNLOAD_PROGRESS number number string
  | CHUNK_DOWNLOADED number number
  | CHUNK_DOWNLOAD_FAILED error
  | DOWNLOAD_FAILED error

text \<open>
  What a run does to the outside, in the order it does it:
  \<^item> \<open>Request u m r\<close>: \<open>protocolClient.request(u, {method: m, headers: {range: r}})\<close>;
  \<^item> \<open>Get u h\<close>: \<open>protocolClient.get(u, options)\<close>, \<open>h\<close> the \<open>Range\<close> header of the
    options, if they have one;
  \<^item> \<open>OpenSync p f\<close>, \<open>FtruncateSync n\<close>, \<open>CloseSync\<close>: the calls of \<open>fs\<close> on the
    descriptor \<open>openSync\<close> returned;
  \<^item> \<open>CreateWriteStream p s f h\<close>: \<open>fs.createWriteStream(p, {start: s, flags: f,
    highWaterMark: h})\<close>, and \<open>Pipe s\<close>: \<open>res.pipe\<close> into that stream;
  \<^item> \<open>StreamWrite s bytes\<close>: the pipe hands a received buffer to the stream that was
    created with \<open>start: s\<close>;
  \<^item> \<open>ConsoleLog\<close> and \<open>Emit\<close>: \<open>console.log\<close> and \<open>this.emit\<close>.
\<close>

datatype action =
    Request string string string
  | Get string "string option"
  | OpenSync string string
  | FtruncateSync number
  | CloseSync
  | CreateWriteStream string number string number
  | Pipe number
  | StreamWrite number string
  | ConsoleLog string
  | Emit event

text \<open>
  What the transport does with one \<open>get\<close>: nothing at all, an error on the request, or a
  response with a status whose body arrives in buffers and then ends, fails or stalls.
  \<open>script\<close> lists the events the program's listeners may see, in their order: a request
  that got its response raises no \<open>error\<close> of its own, and nothing follows the \<open>end\<close> or
  the \<open>error\<close> of a response.
\<close>

datatype stream_end = Ends | Fails string | Stalls

datatype fetch = NoResponse | RequestFails string | Responds int "string list" stream_end

datatype net_event = ReqError string | Response int | Data string | End | ResError string

fun script :: "fetch \<Rightarrow> net_event list" where
  "script NoResponse = []"
| "script (RequestFails err) = [ReqError err]"
| "script (Responds statusCode body Ends) = Response statusCode # map Data body @ [End]"
| "script (Responds statusCode body (Fails err)) =
     Response statusCode # map Data body @ [ResError err]"
| "script (Responds statusCode body Stalls) = Response statusCode # map Data body"

text \<open>
  The environment of one run: the probe's outcome, whether each call of \<open>fs\<close> throws, what
  the transport does with the k-th \<open>get\<close>, and the order in which the event loop delivers
  the events of the requests in flight (each entry names a request by its index).
\<close>

record env =
  probe :: probe
  openSync :: "string option"
  ftruncateSync :: "string option"
  closeSync :: "string option"
  fetches :: "fetch list"
  schedule :: "nat list"

subsection \<open>downloadChunk\<close>

text \<open>
  A call of \<open>downloadChunk\<close> in flight: its arguments, the events the transport has yet to
  deliver, whether the listeners on the response are attached, and the state of the
  promise it returned.
\<close>

record task =
  t_start :: number
  t_end :: number
  pending :: "net_event list"
  listening :: bool
  settled :: "unit promise"

text \<open>\<open>resolve()\<close> and \<open>reject(err)\<close>: a promise settles once.\<close>

definition resolve :: "task \<Rightarrow> task" where
  "resolve t = (if settled t = Pending then t\<lparr>settled := Fulfilled ()\<rparr> else t)"

definition reject :: "error \<Rightarrow> task \<Rightarrow> task" where
  "reject err t = (if settled t = Pending then t\<lparr>settled := Rejected err\<rparr> else t)"

text \<open>
  The \<open>Range\<close> header of \<open>options\<close>; \<open>startPos\<close> and \<open>endPos\<close> are the parameters
  \<open>start\<close> and \<open>end\<close> of \<open>downloadChunk\<close>.
\<close>

definition rangeHeader :: "number \<Rightarrow> number \<Rightarrow> string option" where
  "rangeHeader startPos endPos =
     (if endPos = Infinity then None
      else Some (''bytes='' @ showNumber startPos @ ''-'' @ showNumber endPos))"

text \<open>The synchronous part of \<open>downloadChunk\<close>: the request goes out.\<close>

definition downloadChunk :: "downloadr \<Rightarrow> number \<Rightarrow> number \<Rightarrow> fetch \<Rightarrow> action list \<times> task" where
  "downloadChunk d startPos endPos f =
     ([Get (url d) (rangeHeader startPos endPos)],
      \<lparr>t_start = startPos, t_end = endPos, pending = script f, listening = False,
       settled = Pending\<rparr>)"

text \<open>
  The listeners of \<open>downloadChunk\<close>: the response callback, the listeners it attaches to
  the response (\<open>data\<close>, \<open>end\<close>, \<open>error\<close>; the pipe's \<open>data\<close> listener was attached first)
  and the \<open>error\<close> listener of the request.
\<close>

fun deliver :: "downloadr \<Rightarrow> task \<Rightarrow> net_event \<Rightarrow> action list \<times> task" where
  "deliver d t (Response statusCode) =
     (if statusCode \<noteq> 206 \<and> statusCode \<noteq> 200
      then ([], reject (Error (''Unexpected status code: '' @ showNumber (Num statusCode))) t)
      else ([CreateWriteStream (outputPath d) (t_start t) ''r+'' (highWaterMark d),
             Pipe (t_start t)],
            t\<lparr>listening := True\<rparr>))"
| "deliver d t (Data buf) =
     (if listening t
      then ([StreamWrite (t_start t) buf,
             Emit (CHUNK_DOWNLOAD_PROGRESS (t_start t) (t_end t) buf)], t)
      else ([], t))"
| "deliver d t End =
     (if listening t
      then ([Emit (CHUNK_DOWNLOADED (t_start t) (t_end t))], resolve t)
      else ([], t))"
| "deliver d t (ResError err) =
     (if listening t
      then ([Emit (CHUNK_DOWNLOAD_FAILED (SystemError err))], reject (SystemError err) t)
      else ([], t))"
| "deliver d t (ReqError err) =
     ([Emit (CHUNK_DOWNLOAD_FAILED (SystemError err))], reject (SystemError err) t)"

subsection \<open>download\<close>

text \<open>
  A run of \<open>download\<close>: the calls of \<open>downloadChunk\<close> in flight, the effects so far, and the
  state of the promise \<open>download\<close> returned.
\<close>

record run =
  tasks :: "task list"
  trace :: "action list"
  outcome :: "unit promise"

text \<open>
  The \<open>catch\<close> block: \<open>DOWNLOAD_FAILED\<close> is emitted and the error thrown again.
\<close>

definition failed :: "action list \<Rightarrow> error \<Rightarrow> run" where
  "failed tr err =
     \<lparr>tasks = [], trace = tr @ [Emit (DOWNLOAD_FAILED err)], outcome = Rejected err\<rparr>"

text \<open>
  \<open>chunks.map((chunk) => this.downloadChunk(chunk.start, chunk.end))\<close>: the requests go
  out in the order of the chunks; the k-th gets the k-th behaviour of the environment
  (none when the environment lists fewer).
\<close>

fun startAll :: "downloadr \<Rightarrow> fetch list \<Rightarrow> chunk list \<Rightarrow> (action list \<times> task) list" where
  "startAll d fs [] = []"
| "startAll d fs (c # cs) =
     downloadChunk d (start c) (end' c) (case fs of [] \<Rightarrow> NoResponse | f # _ \<Rightarrow> f)
       # startAll d (tl fs) cs"

definition launch :: "downloadr \<Rightarrow> fetch list \<Rightarrow> action list \<Rightarrow> chunk list \<Rightarrow> run" where
  "launch d fs tr chunks =
     \<lparr>tasks = map snd (startAll d fs chunks),
      trace = tr @ concat (map fst (startAll d fs chunks)),
      outcome = Pending\<rparr>"

text \<open>
  What follows the \<open>await\<close> of \<open>download\<close>, run when a turn of the event loop is over:
  \<open>Promise.all\<close> (and the \<open>await\<close> of the single call alike) rejects as soon as a task
  rejects, which takes the run to the \<open>catch\<close> block, and resolves once every task is
  fulfilled, after which \<open>DOWNLOAD_COMPLETE\<close> is emitted. \<open>k\<close> is the task whose listener
  ran in this turn.
\<close>

definition afterTurn :: "run \<Rightarrow> nat \<Rightarrow> run" where
  "afterTurn r k =
     (case outcome r of
        Pending \<Rightarrow>
          (case settled (tasks r ! k) of
             Rejected err \<Rightarrow>
               r\<lparr>trace := trace r @ [Emit (DOWNLOAD_FAILED err)], outcome := Rejected err\<rparr>
           | _ \<Rightarrow>
               if list_all (\<lambda>t. settled t = Fulfilled ()) (tasks r)
               then r\<lparr>trace := trace r @ [Emit DOWNLOAD_COMPLETE], outcome := Fulfilled ()\<rparr>
               else r)
      | _ \<Rightarrow> r)"

text \<open>\<open>Promise.all\<close> of no task at all resolves at once.\<close>

definition awaitAll :: "run \<Rightarrow> run" where
  "awaitAll r =
     (if tasks r = []
      then r\<lparr>trace := trace r @ [Emit DOWNLOAD_COMPLETE], outcome := Fulfilled ()\<rparr>
      else r)"

text \<open>
  One turn of the event loop: the next event of request \<open>k\<close>, if it has one, goes to its
  listener; then the promise reactions run.
\<close>

definition turn :: "downloadr \<Rightarrow> run \<Rightarrow> nat \<Rightarrow> run" where
  "turn d r k =
     (if k < length (tasks r) then
        (case pending (tasks r ! k) of
           [] \<Rightarrow> r
         | ev # rest \<Rightarrow>
             (case deliver d ((tasks r ! k)\<lparr>pending := rest\<rparr>) ev of
                (acts, t') \<Rightarrow>
                  afterTurn (r\<lparr>tasks := (tasks r)[k := t'], trace := trace r @ acts\<rparr>) k))
      else r)"

definition eventLoop :: "downloadr \<Rightarrow> run \<Rightarrow> nat list \<Rightarrow> run" where
  "eventLoop d r sched = foldl (turn d) r sched"

text \<open>
  \<open>download\<close>. The result is the run when the schedule of the environment is used up;
  \<open>None\<close> stands for a run in which \<open>getChunks\<close> does not return.
\<close>

definition download :: "downloadr \<Rightarrow> env \<Rightarrow> run option" where
  "download d e =
     (case getFileSize d (probe e) of
        Pending \<Rightarrow>
          Some \<lparr>tasks = [], trace = [Request (url d) ''GET'' ''bytes=0-0''], outcome = Pending\<rparr>
      | Rejected err \<Rightarrow> Some (failed [Request (url d) ''GET'' ''bytes=0-0''] err)
      | Fulfilled (fileSize, d') \<Rightarrow>
          if fileSize = Num (- 1) \<or> chunkCount d' = Num 1 then
            Some (eventLoop d'
                    (awaitAll (launch d' (fetches e)
                       [Request (url d) ''GET'' ''bytes=0-0'', Emit DOWNLOAD_START]
                       [\<lparr>start = Num 0, end' = Infinity\<rparr>]))
                    (schedule e))
          else
            (let tr = [Request (url d) ''GET'' ''bytes=0-0'',
                       ConsoleLog (''File size: '' @ showNumber fileSize @ '' bytes''),
                       OpenSync (outputPath d') ''w''] in
             case openSync e of
               Some err \<Rightarrow> Some (failed tr (SystemError err))
             | None \<Rightarrow>
                 (case ftruncateSync e of
                    Some err \<Rightarrow> Some (failed (tr @ [FtruncateSync fileSize]) (SystemError err))
                  | None \<Rightarrow>
                      (case closeSync e of
                         Some err \<Rightarrow>
                           Some (failed (tr @ [FtruncateSync fileSize, CloseSync])
                                   (SystemError err))
                       | None \<Rightarrow>
                           (case getChunks d' fileSize of
                              None \<Rightarrow> None
                            | Some chunks \<Rightarrow>
                                Some (eventLoop d'
                                        (awaitAll (launch d' (fetches e)
                                           (tr @ [FtruncateSync fileSize, CloseSync,
                                                  Emit DOWNLOAD_START])
                                           chunks))
                                        (schedule e)))))))"

section \<open>Notions used in the statements and proofs\<close>

text \<open>The bytes a chunk stands for: \<open>start\<close> to \<open>end\<close>, both included.\<close>

definition byteRange :: "chunk \<Rightarrow> int set" where
  "byteRange c =
     (case (start c, end' c) of
        (Num s, Num e) \<Rightarrow> {s..e}
      | (Num s, Infinity) \<Rightarrow> {s..}
      | _ \<Rightarrow> {})"

text \<open>
  The k-th chunk of a loop that starts at \<open>i\<close> with step \<open>cs\<close>, for a file of \<open>fs\<close>
  bytes: what the loop body pushes in its k-th round.
\<close>

definition planned :: "int \<Rightarrow> int \<Rightarrow> int \<Rightarrow> nat \<Rightarrow> chunk" where
  "planned fs cs i k =
     \<lparr>start = Num (i + int k * cs), end' = Num (min (i + int k * cs + cs - 1) (fs - 1))\<rparr>"

text \<open>The instance the repository's tests build.\<close>

definition mockDownloader :: downloadr where
  "mockDownloader =
     newDownloadr ''https://example.com/file.zip'' ''/path/to/file.zip'' None None"



text \<open>
  The events of a trace, in order, and the requests for chunks among its actions.
\<close>

fun eventsOf :: "action list \<Rightarrow> event list" where
  "eventsOf [] = []"
| "eventsOf (Emit ev # tr) = ev # eventsOf tr"
| "eventsOf (_ # tr) = eventsOf tr"

fun isGet :: "action \<Rightarrow> bool" where
  "isGet (Get _ _) = True"
| "isGet _ = False"

text \<open>The request \<open>downloadChunk\<close> sends for a chunk.\<close>

definition getOf :: "downloadr \<Rightarrow> chunk \<Rightarrow> action" where
  "getOf d c = Get (url d) (rangeHeader (start c) (end' c))"

text \<open>The byte ranges the tasks of a run were started with.\<close>

definition ranges :: "task list \<Rightarrow> (number \<times> number) list" where
  "ranges ts = map (\<lambda>t. (t_start t, t_end t)) ts"

text \<open>
  The events that close a request or a response, and the scripts in which such an event
  can only come last.
\<close>

fun terminal :: "net_event \<Rightarrow> bool" where
  "terminal End = True"
| "terminal (ResError _) = True"
| "terminal (ReqError _) = True"
| "terminal _ = False"

fun terminalLast :: "net_event list \<Rightarrow> bool" where
  "terminalLast [] = True"
| "terminalLast [ev] = True"
| "terminalLast (ev # ev' # evs) = (\<not> terminal ev \<and> terminalLast (ev' # evs))"

text \<open>
  The invariant of the event loop, in two parts. \<open>tasksOk\<close>: \<open>DOWNLOAD_START\<close> was emitted
  first and once; a fulfilled task has no event left and its \<open>CHUNK_DOWNLOADED\<close> was
  emitted; a \<open>CHUNK_DOWNLOAD_FAILED\<close> in the trace comes with a rejected task.
  \<open>outcomeOk\<close>: while \<open>download\<close> is pending no task is rejected and neither final event
  was emitted; once it is fulfilled every task is fulfilled and \<open>DOWNLOAD_COMPLETE\<close> is the
  last event, emitted once; once it is rejected \<open>DOWNLOAD_COMPLETE\<close> was not emitted.
\<close>

definition tasksOk :: "run \<Rightarrow> bool" where
  "tasksOk r =
     ((\<exists>evs. eventsOf (trace r) = DOWNLOAD_START # evs \<and> DOWNLOAD_START \<notin> set evs) \<and>
      (\<forall>i. i < length (tasks r) \<longrightarrow>
         terminalLast (pending (tasks r ! i)) \<and>
         (settled (tasks r ! i) = Fulfilled () \<longrightarrow>
            pending (tasks r ! i) = [] \<and>
            CHUNK_DOWNLOADED (t_start (tasks r ! i)) (t_end (tasks r ! i))
              \<in> set (eventsOf (trace r)))) \<and>
      ((\<exists>err. CHUNK_DOWNLOAD_FAILED err \<in> set (eventsOf (trace r))) \<longrightarrow>
         (\<exists>i err. i < length (tasks r) \<and> settled (tasks r ! i) = Rejected err)))"

definition outcomeOk :: "run \<Rightarrow> bool" where
  "outcomeOk r =
     ((outcome r = Pending \<longrightarrow>
         (\<forall>i err. i < length (tasks r) \<longrightarrow> settled (tasks r ! i) \<noteq> Rejected err) \<and>
         DOWNLOAD_COMPLETE \<notin> set (eventsOf (trace r)) \<and>
         (\<forall>err. DOWNLOAD_FAILED err \<notin> set (eventsOf (trace r)))) \<and>
      (outcome r = Fulfilled () \<longrightarrow>
         (\<forall>i. i < length (tasks r) \<longrightarrow> settled (tasks r ! i) = Fulfilled ()) \<and>
         (\<exists>evs. eventsOf (trace r) = evs @ [DOWNLOAD_COMPLETE] \<and>
            DOWNLOAD_COMPLETE \<notin> set evs \<and> (\<forall>err. DOWNLOAD_FAILED err \<notin> set evs))) \<and>
      (\<forall>err. outcome r = Rejected err \<longrightarrow> DOWNLOAD_COMPLETE \<notin> set (eventsOf (trace r))))"

text \<open>The actions that open the output file for a chunk or hand bytes to it.\<close>

fun isWrite :: "action \<Rightarrow> bool" where
  "isWrite (CreateWriteStream _ _ _ _) = True"
| "isWrite (Pipe _) = True"
| "isWrite (StreamWrite _ _) = True"
| "isWrite _ = False"


text \<open>What a run did, what it emitted and how it ended; nothing for a run that hangs in
  \<open>getChunks\<close>.\<close>

definition performed :: "run option \<Rightarrow> action list" where
  "performed ro = (case ro of Some r \<Rightarrow> trace r | None \<Rightarrow> [])"

definition emitted :: "run option \<Rightarrow> event list" where
  "emitted ro = eventsOf (performed ro)"

definition outcomeOf :: "run option \<Rightarrow> unit promise" where
  "outcomeOf ro = (case ro of Some r \<Rightarrow> outcome r | None \<Rightarrow> Pending)"

text \<open>
  One call of \<open>downloadChunk\<close> on its own: its listeners get every event of the script in
  turn, and \<open>chunkPromise\<close> is the state of the promise it returned after that.
\<close>

fun feed :: "downloadr \<Rightarrow> task \<Rightarrow> net_event list \<Rightarrow> task" where
  "feed d t [] = t"
| "feed d t (ev # evs) = feed d (snd (deliver d t ev)) evs"

definition chunkPromise :: "downloadr \<Rightarrow> number \<Rightarrow> number \<Rightarrow> fetch \<Rightarrow> unit promise" where
  "chunkPromise d startPos endPos f =
     settled (feed d (snd (downloadChunk d startPos endPos f)) (script f))"


definition notFoundEnv :: env where
  "notFoundEnv =
     \<lparr>probe = ProbeResponse \<lparr>content_range = None, content_length = Some ''200000000''\<rparr>,
      openSync = None, ftruncateSync = None, closeSync = None,
      fetches = [Responds 404 [] Stalls, Responds 206 [] Ends], schedule = [0, 1, 1]\<rparr>"


definition noSizeEnv :: env where
  "noSizeEnv =
     \<lparr>probe = ProbeResponse \<lparr>content_range = None, content_length = None\<rparr>,
      openSync = None, ftruncateSync = None, closeSync = None,
      fetches = [Responds 200 [''abc''] Ends], schedule = [0, 0, 0]\<rparr>"

definition twoChunkEnv :: env where
  "twoChunkEnv =
     \<lparr>probe = ProbeResponse \<lparr>content_range = None, content_length = Some ''200000000''\<rparr>,
      openSync = None, ftruncateSync = None, closeSync = None,
      fetches = [Responds 206 [] Ends, Responds 206 [] Ends], schedule = [1, 0, 1, 0]\<rparr>"

section \<open>Chunk planning\<close>

text \<open>
  With a step of at least one the loop returns, and its result has a closed form: round
  \<open>k\<close> pushes \<open>planned fs cs i k\<close>, for as many rounds as steps fit below \<open>fs\<close>.
\<close>

lemma chunksLoop_Num:
  assumes "1 \<le> cs"
  shows "chunksLoop (Num fs) (Num cs) (Num i) acc =
           Some (acc @ map (planned fs cs i) [0..<nat (- ((i - fs) div cs))])"
proof (induction "nat (fs - i)" arbitrary: i acc rule: less_induct)
  case less
  show ?case
  proof (cases "i < fs")
    case False
    then have "0 \<le> (i - fs) div cs" using assms by (simp add: pos_imp_zdiv_nonneg_iff)
    then show ?thesis using False by (subst chunksLoop.simps) simp
  next
    case True
    have lt: "nat (fs - (i + cs)) < nat (fs - i)" using True assms by simp
    have d: "(i + cs - fs) div cs = (i - fs) div cs + 1"
      using assms by (metis add.commute add_diff_eq div_add_self1 not_one_le_zero) 
    have neg: "(i - fs) div cs < 0" using True assms
      by (simp add: div_neg_pos_less0)
    then have n: "nat (- ((i - fs) div cs)) = Suc (nat (- ((i + cs - fs) div cs)))"
      using d by simp
    have m: "\<And>k. planned fs cs (i + cs) k = planned fs cs i (Suc k)"
      by (simp add: planned_def algebra_simps)
    have "chunksLoop (Num fs) (Num cs) (Num i) acc =
          chunksLoop (Num fs) (Num cs) (Num (i + cs)) (acc @ [planned fs cs i 0])"
      using True by (subst chunksLoop.simps) (simp add: planned_def js_sub_def)
    also have "\<dots> = Some ((acc @ [planned fs cs i 0]) @ map (planned fs cs (i + cs)) [0..<nat (- ((i + cs - fs) div cs))])"
      using less[OF lt] .
    also have "\<dots> = Some (acc @ map (planned fs cs i) [0..<nat (- ((i - fs) div cs))])"
      unfolding n m by (simp add: upt_rec[of 0 "Suc _"] map_Suc_upt[symmetric] del: upt_Suc)
    finally show ?thesis .
  qed
qed

lemma chunksLoop_not_entered:
  "\<not> js_lt i fileSize \<Longrightarrow> chunksLoop fileSize chunkSize i chunks = Some chunks"
  by (subst chunksLoop.simps) simp

text \<open>The ceiling of a quotient of integers, and the bounds it satisfies.\<close>

lemma ceil_bounds:
  fixes a b :: int
  assumes "1 \<le> b"
  shows "(- ((- a) div b) - 1) * b < a" and "a \<le> - ((- a) div b) * b"
proof -
  define q where "q = (- a) div b"
  define m where "m = (- a) mod b"
  have e: "q * b + m = - a" unfolding q_def m_def by simp
  have m0: "0 \<le> m" and m1: "m < b" using assms unfolding m_def by simp_all
  have "(- q - 1) * b = - (q * b) - b" by (simp add: algebra_simps)
  then show "(- ((- a) div b) - 1) * b < a" using e m1 unfolding q_def[symmetric] by linarith
  have "- q * b = - (q * b)" by simp
  then show "a \<le> - ((- a) div b) * b" using e m0 unfolding q_def[symmetric] by linarith
qed

lemma ceil_pos:
  fixes a b :: int
  assumes "1 \<le> a" "1 \<le> b"
  shows "1 \<le> - ((- a) div b)"
proof -
  have "(- a) div b < 0" using assms by (simp add: div_neg_pos_less0)
  then show ?thesis by linarith
qed

lemma getChunks_closed:
  assumes "chunkCount d = Num cc" "1 \<le> cc" "1 \<le> fs"
  shows "getChunks d (Num fs) =
           Some (map (planned fs (- ((- fs) div cc)) 0)
                   [0..<nat (- ((- fs) div (- ((- fs) div cc))))])"
proof -
  define cs where "cs = - ((- fs) div cc)"
  have cs: "1 \<le> cs" unfolding cs_def using assms by (intro ceil_pos)
  have cd: "ceil_div (Num fs) (Num cc) = Num cs" using assms unfolding cs_def by simp
  have "getChunks d (Num fs) = chunksLoop (Num fs) (Num cs) (Num 0) []"
    unfolding getChunks_def assms(1) cd ..
  also have "\<dots> = Some ([] @ map (planned fs cs 0) [0..<nat (- ((0 - fs) div cs))])"
    using cs by (rule chunksLoop_Num)
  finally show ?thesis unfolding cs_def by simp
qed

lemma getChunks_zero: "getChunks d (Num 0) = Some []"
  unfolding getChunks_def by (rule chunksLoop_not_entered) simp


text \<open>What the closed form gives for a file of at least one byte.\<close>

lemma plan_props:
  fixes fs cs :: int
  assumes cs: "1 \<le> cs" and fs: "1 \<le> fs"
  defines "n \<equiv> nat (- ((- fs) div cs))"
  defines "chunks \<equiv> map (planned fs cs 0) [0..<n]"
  shows plan_length: "int (length chunks) = - ((- fs) div cs)"
    and plan_nonempty: "chunks \<noteq> []"
    and plan_hd: "start (hd chunks) = Num 0"
    and plan_last: "end' (last chunks) = Num (fs - 1)"
    and plan_contiguous: "\<And>k. Suc k < length chunks \<Longrightarrow>
           \<exists>e. end' (chunks ! k) = Num e \<and> start (chunks ! Suc k) = Num (e + 1)"
    and plan_bounds: "\<And>k. k < length chunks \<Longrightarrow>
           \<exists>s e. chunks ! k = \<lparr>start = Num s, end' = Num e\<rparr> \<and> 0 \<le> s \<and> s \<le> e \<and> e < fs"
    and plan_ascending: "\<And>j k. j < k \<Longrightarrow> k < length chunks \<Longrightarrow>
           js_lt (start (chunks ! j)) (start (chunks ! k))"
    and plan_cover: "(\<Union>c\<in>set chunks. byteRange c) = {0..<fs}"
    and plan_disjoint: "\<And>j k. j < k \<Longrightarrow> k < length chunks \<Longrightarrow>
           byteRange (chunks ! j) \<inter> byteRange (chunks ! k) = {}"
proof -
  have npos: "1 \<le> - ((- fs) div cs)" using fs cs by (intro ceil_pos)
  then have n: "int n = - ((- fs) div cs)" unfolding n_def by simp
  have n1: "0 < n" using npos n by linarith
  have lo: "(int n - 1) * cs < fs" using ceil_bounds(1)[OF cs, of fs] n by simp
  have hi: "fs \<le> int n * cs" using ceil_bounds(2)[OF cs, of fs] n by simp
  have len: "length chunks = n" unfolding chunks_def by simp
  have nth: "\<And>k. k < n \<Longrightarrow> chunks ! k = planned fs cs 0 k" unfolding chunks_def by simp
  have below: "\<And>k. k < n \<Longrightarrow> int k * cs < fs"
  proof -
    fix k assume "k < n"
    then have "int k \<le> int n - 1" by simp
    then have "int k * cs \<le> (int n - 1) * cs" using cs by (intro mult_right_mono) simp_all
    then show "int k * cs < fs" using lo by linarith
  qed
  have mono: "\<And>j k. j < k \<Longrightarrow> int j * cs + cs \<le> int k * cs"
  proof -
    fix j k :: nat assume "j < k"
    then have "int j + 1 \<le> int k" by simp
    then have "(int j + 1) * cs \<le> int k * cs" using cs by (intro mult_right_mono) simp_all
    then show "int j * cs + cs \<le> int k * cs" by (simp add: algebra_simps)
  qed
  show "int (length chunks) = - ((- fs) div cs)" using len n by simp
  show ne: "chunks \<noteq> []" using len n1 by auto
  show "start (hd chunks) = Num 0"
    using n1 nth[of 0] ne by (simp add: hd_conv_nth planned_def)
  show "end' (last chunks) = Num (fs - 1)"
  proof -
    have "last chunks = planned fs cs 0 (n - 1)" using ne len n1 nth[of "n - 1"] by (simp add: last_conv_nth)
    moreover have "int (n - 1) * cs + cs = int n * cs" using n1 by (simp add: algebra_simps of_nat_diff)
    ultimately show ?thesis using hi by (simp add: planned_def)
  qed
  show "\<And>k. Suc k < length chunks \<Longrightarrow>
           \<exists>e. end' (chunks ! k) = Num e \<and> start (chunks ! Suc k) = Num (e + 1)"
  proof -
    fix k assume a: "Suc k < length chunks"
    then have k: "k < n" "Suc k < n" using len by simp_all
    have "int (Suc k) * cs < fs" using below[OF k(2)] .
    then have "int k * cs + cs - 1 \<le> fs - 1" by (simp add: algebra_simps)
    then have "end' (chunks ! k) = Num (int k * cs + cs - 1) \<and>
               start (chunks ! Suc k) = Num (int k * cs + cs - 1 + 1)"
      using nth[OF k(1)] nth[OF k(2)] by (simp add: planned_def algebra_simps)
    then show "\<exists>e. end' (chunks ! k) = Num e \<and> start (chunks ! Suc k) = Num (e + 1)" ..
  qed
  show bounds: "\<And>k. k < length chunks \<Longrightarrow>
           \<exists>s e. chunks ! k = \<lparr>start = Num s, end' = Num e\<rparr> \<and> 0 \<le> s \<and> s \<le> e \<and> e < fs"
  proof -
    fix k assume "k < length chunks"
    then have k: "k < n" using len by simp
    have "0 \<le> int k * cs" using cs by simp
    then show "\<exists>s e. chunks ! k = \<lparr>start = Num s, end' = Num e\<rparr> \<and> 0 \<le> s \<and> s \<le> e \<and> e < fs"
      using nth[OF k] below[OF k] cs by (simp add: planned_def)
  qed
  show "\<And>j k. j < k \<Longrightarrow> k < length chunks \<Longrightarrow>
           js_lt (start (chunks ! j)) (start (chunks ! k))"
  proof -
    fix j k assume a: "j < k" "k < length chunks"
    then have "j < n" "k < n" using len by simp_all
    then show "js_lt (start (chunks ! j)) (start (chunks ! k))"
      using nth a(1) cs by (simp add: planned_def)
  qed
  have range: "\<And>k. k < n \<Longrightarrow> byteRange (chunks ! k) = {int k * cs .. min (int k * cs + cs - 1) (fs - 1)}"
    using nth by (simp add: planned_def byteRange_def)
  show "(\<Union>c\<in>set chunks. byteRange c) = {0..<fs}"
  proof (intro set_eqI iffI)
    fix b assume "b \<in> (\<Union>c\<in>set chunks. byteRange c)"
    then obtain k where k: "k < n" "b \<in> byteRange (chunks ! k)"
      using len by (auto simp: in_set_conv_nth)
    have z: "0 \<le> int k * cs" using cs by simp
    have "b \<in> {int k * cs .. min (int k * cs + cs - 1) (fs - 1)}"
      using k range[OF k(1)] by simp
    then have "int k * cs \<le> b" and "b \<le> fs - 1" by simp_all
    then have "0 \<le> b" and "b < fs" using z by linarith+
    then show "b \<in> {0..<fs}" by simp
  next
    fix b assume b: "b \<in> {0..<fs}"
    define k where "k = nat (b div cs)"
    have q: "0 \<le> b div cs" using b cs by (simp add: pos_imp_zdiv_nonneg_iff)
    then have ik: "int k = b div cs" unfolding k_def by simp
    have e: "int k * cs + b mod cs = b" unfolding ik by simp
    have m: "0 \<le> b mod cs" "b mod cs < cs" using cs by simp_all
    have "k < n"
    proof (rule ccontr)
      assume "\<not> k < n"
      then have "int n \<le> int k" by simp
      then have "int n * cs \<le> int k * cs" using cs by (intro mult_right_mono) simp_all
      moreover have "0 \<le> b" and "b < fs" using b by simp_all
      ultimately show False using hi e m by linarith
    qed
    moreover have "b \<in> {int k * cs .. min (int k * cs + cs - 1) (fs - 1)}"
    proof -
      have "0 \<le> b" and "b < fs" using b by simp_all
      then have "int k * cs \<le> b" and "b \<le> int k * cs + cs - 1" and "b \<le> fs - 1"
        using e m by linarith+
      then show ?thesis by simp
    qed
    ultimately have "chunks ! k \<in> set chunks" and "b \<in> byteRange (chunks ! k)"
      using range len by simp_all
    then show "b \<in> (\<Union>c\<in>set chunks. byteRange c)" by blast
  qed
  show "\<And>j k. j < k \<Longrightarrow> k < length chunks \<Longrightarrow>
           byteRange (chunks ! j) \<inter> byteRange (chunks ! k) = {}"
  proof -
    fix j k assume a: "j < k" "k < length chunks"
    then have jk: "j < n" "k < n" using len by simp_all
    have "\<And>b. b \<le> int j * cs + cs - 1 \<Longrightarrow> int k * cs \<le> b \<Longrightarrow> False"
      using mono[OF a(1)] by linarith
    then show "byteRange (chunks ! j) \<inter> byteRange (chunks ! k) = {}"
      unfolding range[OF jk(1)] range[OF jk(2)] by auto
  qed
qed


lemma mock_getChunks_1000:
  "getChunks mockDownloader (Num 1000) =
     Some [\<lparr>start = Num 0, end' = Num 333\<rparr>, \<lparr>start = Num 334, end' = Num 667\<rparr>,
           \<lparr>start = Num 668, end' = Num 999\<rparr>]"
  by code_simp



text \<open>
  Claim C10. With a chunk count of at least one the loop of \<open>getChunks\<close> returns for
  every file size from zero up: the chunk size is at least one as soon as the file has a
  byte, so the index grows in every round, and the loop runs at most \<open>fileSize\<close> rounds.
\<close>

theorem getChunks_terminates:
  "chunkCount d = Num cc \<and> 1 \<le> cc \<and> 0 \<le> fileSize \<longrightarrow>
     (\<exists>chunks. getChunks d (Num fileSize) = Some chunks \<and> int (length chunks) \<le> fileSize) \<and>
     (1 \<le> fileSize \<longrightarrow>
        (\<exists>chunkSize. ceil_div (Num fileSize) (Num cc) = Num chunkSize \<and> 1 \<le> chunkSize))"
proof (intro impI)
  assume a: "chunkCount d = Num cc \<and> 1 \<le> cc \<and> 0 \<le> fileSize"
  show "(\<exists>chunks. getChunks d (Num fileSize) = Some chunks \<and> int (length chunks) \<le> fileSize) \<and>
     (1 \<le> fileSize \<longrightarrow>
        (\<exists>chunkSize. ceil_div (Num fileSize) (Num cc) = Num chunkSize \<and> 1 \<le> chunkSize))"
  proof (cases "fileSize = 0")
    case True
    then show ?thesis using getChunks_zero[of d] by simp
  next
    case False
    then have fs: "1 \<le> fileSize" using a by simp
    define cs where "cs = - ((- fileSize) div cc)"
    define n where "n = - ((- fileSize) div cs)"
    have cc: "1 \<le> cc" using a by simp
    have cs: "1 \<le> cs" unfolding cs_def using fs cc by (rule ceil_pos)
    have g: "getChunks d (Num fileSize) = Some (map (planned fileSize cs 0) [0..<nat n])"
      unfolding n_def cs_def using a fs by (intro getChunks_closed) simp_all
    have n1: "1 \<le> n" unfolding n_def using cs fs by (intro ceil_pos)
    have "(n - 1) * cs < fileSize" unfolding n_def by (rule ceil_bounds(1)[OF cs])
    moreover have "(n - 1) * 1 \<le> (n - 1) * cs" using n1 cs by (intro mult_left_mono) simp_all
    ultimately have "n \<le> fileSize" by simp
    then have "int (length (map (planned fileSize cs 0) [0..<nat n])) \<le> fileSize"
      using n1 by simp
    moreover have "ceil_div (Num fileSize) (Num cc) = Num cs" using a unfolding cs_def by simp
    ultimately show ?thesis using g cs by blast
  qed
qed

theorem getChunks_terminates_witness:
  "getChunks mockDownloader (Num 1000) =
     Some [\<lparr>start = Num 0, end' = Num 333\<rparr>, \<lparr>start = Num 334, end' = Num 667\<rparr>,
           \<lparr>start = Num 668, end' = Num 999\<rparr>] \<and>
   (\<exists>chunks. getChunks mockDownloader (Num 1000) = Some chunks \<and> int (length chunks) \<le> 1000) \<and>
   (\<exists>chunkSize. ceil_div (Num 1000) (Num 3) = Num chunkSize \<and> 1 \<le> chunkSize)"
proof -
  have h: "chunkCount mockDownloader = Num 3 \<and> (1::int) \<le> 3 \<and> (0::int) \<le> 1000"
    by (simp add: mockDownloader_def newDownloadr_def CHUNK_COUNT_def)
  from getChunks_terminates[of mockDownloader 3 1000] h
  have t: "(\<exists>chunks. getChunks mockDownloader (Num 1000) = Some chunks \<and>
              int (length chunks) \<le> 1000) \<and>
           ((1::int) \<le> 1000 \<longrightarrow>
              (\<exists>chunkSize. ceil_div (Num 1000) (Num 3) = Num chunkSize \<and> 1 \<le> chunkSize))"
    by (rule mp)
  have "(1::int) \<le> 1000" by simp
  with t[THEN conjunct2]
  have "\<exists>chunkSize. ceil_div (Num 1000) (Num 3) = Num chunkSize \<and> 1 \<le> chunkSize"
    by (rule mp)
  then show ?thesis
    by (intro conjI) (rule mock_getChunks_1000, rule t[THEN conjunct1], assumption)
qed

section \<open>Size discovery\<close>

text \<open>The pattern on a header of the expected form, and \<open>parseInt\<close> on digits.\<close>

lemma not_digit_sep [simp]: "\<not> isDigit CHR ''-''" "\<not> isDigit CHR ''/''" "\<not> isDigit CHR ''+''"
  by (simp_all add: isDigit_def)









lemma size_matched:
  "sizeMatch (content_range res) = Some t \<Longrightarrow> fst (onProbeResponse d res) = parseInt t"
  by (simp add: onProbeResponse_def Let_def)

lemma size_content_length:
  "sizeMatch (content_range res) = None \<Longrightarrow> content_length res = Some cl \<Longrightarrow> cl \<noteq> [] \<Longrightarrow>
   fst (onProbeResponse d res) = parseInt cl"
  by (simp add: onProbeResponse_def Let_def)

lemma size_unknown:
  "sizeMatch (content_range res) = None \<Longrightarrow>
   content_length res = None \<or> content_length res = Some [] \<Longrightarrow>
   onProbeResponse d res = (Num (- 1), d\<lparr>chunkCount := Num 1\<rparr>)"
  by (auto simp: onProbeResponse_def)












lemma chunkCount_resolved:
  "chunkCount (snd (onProbeResponse d res)) =
     (if js_lt (fst (onProbeResponse d res)) (Num 104857600) then Num 1
      else ceil_div (fst (onProbeResponse d res)) (Num 104857600))"
  by (simp add: onProbeResponse_def Let_def split: option.splits)







section \<open>Runs of download\<close>

subsection \<open>Traces and scripts\<close>

lemma eventsOf_append: "eventsOf (xs @ ys) = eventsOf xs @ eventsOf ys"
  by (induction xs rule: eventsOf.induct) simp_all

lemma terminalLast_tl: "terminalLast (ev # evs) \<Longrightarrow> terminalLast evs"
  by (cases evs) simp_all

lemma terminalLast_terminal: "terminalLast (ev # evs) \<Longrightarrow> terminal ev \<Longrightarrow> evs = []"
  by (cases evs) simp_all

lemma terminalLast_data: "terminalLast (map Data body @ [ev])"
  by (induction body rule: induct_list012) simp_all

lemma terminalLast_data': "terminalLast (map Data body)"
  by (induction body rule: induct_list012) simp_all

lemma terminalLast_script: "terminalLast (script f)"
proof (cases f)
  case (Responds st body en)
  have "terminalLast (Response st # evs)" if "terminalLast evs" for evs
    using that by (cases evs) simp_all
  then show ?thesis using Responds terminalLast_data terminalLast_data'
    by (cases en) simp_all
qed simp_all

subsection \<open>What a listener does\<close>

lemma deliver_frame:
  "pending (snd (deliver d t ev)) = pending t"
  "t_start (snd (deliver d t ev)) = t_start t"
  "t_end (snd (deliver d t ev)) = t_end t"
  by (cases ev; simp add: resolve_def reject_def)+

lemma deliver_no_get: "filter isGet (fst (deliver d t ev)) = []"
  by (cases ev) simp_all


lemma deliver_events:
  "eventsOf (fst (deliver d t ev)) = [] \<or>
   (\<exists>buf. eventsOf (fst (deliver d t ev)) = [CHUNK_DOWNLOAD_PROGRESS (t_start t) (t_end t) buf]) \<or>
   (ev = End \<and> eventsOf (fst (deliver d t ev)) = [CHUNK_DOWNLOADED (t_start t) (t_end t)]) \<or>
   (terminal ev \<and> (\<exists>err. eventsOf (fst (deliver d t ev)) = [CHUNK_DOWNLOAD_FAILED err]))"
  by (cases ev) simp_all

lemma deliver_failed_rejects:
  "CHUNK_DOWNLOAD_FAILED err \<in> set (eventsOf (fst (deliver d t ev))) \<Longrightarrow>
   settled t \<noteq> Fulfilled () \<Longrightarrow> \<exists>err'. settled (snd (deliver d t ev)) = Rejected err'"
  by (cases ev; cases "settled t"; simp add: reject_def split: if_splits)

lemma deliver_settled:
  "settled (snd (deliver d t ev)) = settled t \<or>
   (settled t = Pending \<and>
      ((ev = End \<and> settled (snd (deliver d t ev)) = Fulfilled () \<and>
          eventsOf (fst (deliver d t ev)) = [CHUNK_DOWNLOADED (t_start t) (t_end t)]) \<or>
       (\<exists>err. settled (snd (deliver d t ev)) = Rejected err)))"
  by (cases ev; cases "settled t"; simp add: resolve_def reject_def)

subsection \<open>One turn of the event loop\<close>

lemma turn_idle:
  "\<not> k < length (tasks r) \<or> pending (tasks r ! k) = [] \<Longrightarrow> turn d r k = r"
  by (auto simp: turn_def)

lemma turn_eq:
  "k < length (tasks r) \<Longrightarrow> pending (tasks r ! k) = ev # rest \<Longrightarrow>
   turn d r k =
     afterTurn (r\<lparr>tasks := (tasks r)[k := snd (deliver d ((tasks r ! k)\<lparr>pending := rest\<rparr>) ev)],
                  trace := trace r @ fst (deliver d ((tasks r ! k)\<lparr>pending := rest\<rparr>) ev)\<rparr>) k"
  by (simp add: turn_def split: prod.splits)

lemma afterTurn_settled: "outcome r \<noteq> Pending \<Longrightarrow> afterTurn r k = r"
  by (cases "outcome r") (simp_all add: afterTurn_def)

lemma afterTurn_reject:
  "outcome r = Pending \<Longrightarrow> settled (tasks r ! k) = Rejected err \<Longrightarrow>
   afterTurn r k = r\<lparr>trace := trace r @ [Emit (DOWNLOAD_FAILED err)], outcome := Rejected err\<rparr>"
  by (simp add: afterTurn_def)

lemma afterTurn_complete:
  "outcome r = Pending \<Longrightarrow> (\<forall>err. settled (tasks r ! k) \<noteq> Rejected err) \<Longrightarrow>
   list_all (\<lambda>t. settled t = Fulfilled ()) (tasks r) \<Longrightarrow>
   afterTurn r k = r\<lparr>trace := trace r @ [Emit DOWNLOAD_COMPLETE], outcome := Fulfilled ()\<rparr>"
  by (cases "settled (tasks r ! k)") (simp_all add: afterTurn_def)

lemma afterTurn_wait:
  "outcome r = Pending \<Longrightarrow> (\<forall>err. settled (tasks r ! k) \<noteq> Rejected err) \<Longrightarrow>
   \<not> list_all (\<lambda>t. settled t = Fulfilled ()) (tasks r) \<Longrightarrow> afterTurn r k = r"
  by (cases "settled (tasks r ! k)") (simp_all add: afterTurn_def)

subsection \<open>The invariant is kept\<close>

lemma tasksOk_emit:
  assumes "tasksOk r" "ev \<noteq> DOWNLOAD_START" "\<forall>err. ev \<noteq> CHUNK_DOWNLOAD_FAILED err"
  shows "tasksOk (r\<lparr>trace := trace r @ [Emit ev], outcome := oc\<rparr>)"
  using assms unfolding tasksOk_def by (auto simp: eventsOf_append)

lemma tasksOk_deliver:
  assumes ok: "tasksOk r" and k: "k < length (tasks r)" and p: "pending (tasks r ! k) = ev # rest"
  shows "tasksOk (r\<lparr>tasks := (tasks r)[k := snd (deliver d ((tasks r ! k)\<lparr>pending := rest\<rparr>) ev)],
                    trace := trace r @ fst (deliver d ((tasks r ! k)\<lparr>pending := rest\<rparr>) ev)\<rparr>)"
proof -
  define t where "t = (tasks r ! k)\<lparr>pending := rest\<rparr>"
  define acts where "acts = fst (deliver d t ev)"
  define t' where "t' = snd (deliver d t ev)"
  define E where "E = eventsOf (trace r)"
  have tl: "terminalLast (ev # rest)" using ok k p unfolding tasksOk_def by metis
  have nf: "settled (tasks r ! k) \<noteq> Fulfilled ()" using ok k p unfolding tasksOk_def by fastforce
  have st: "settled t = settled (tasks r ! k)" "t_start t = t_start (tasks r ! k)"
    "t_end t = t_end (tasks r ! k)" "pending t = rest" unfolding t_def by simp_all
  have fr: "pending t' = rest" "t_start t' = t_start (tasks r ! k)" "t_end t' = t_end (tasks r ! k)"
    unfolding t'_def using deliver_frame[of d t ev] st by simp_all
  have ev: "eventsOf acts = [] \<or>
     (\<exists>buf. eventsOf acts = [CHUNK_DOWNLOAD_PROGRESS (t_start t) (t_end t) buf]) \<or>
     (ev = End \<and> eventsOf acts = [CHUNK_DOWNLOADED (t_start t) (t_end t)]) \<or>
     (terminal ev \<and> (\<exists>err. eventsOf acts = [CHUNK_DOWNLOAD_FAILED err]))"
    unfolding acts_def by (rule deliver_events)
  have se: "settled t' = settled t \<or>
     (settled t = Pending \<and>
      ((ev = End \<and> settled t' = Fulfilled () \<and>
          eventsOf acts = [CHUNK_DOWNLOADED (t_start t) (t_end t)]) \<or>
       (\<exists>err. settled t' = Rejected err)))"
    unfolding acts_def t'_def by (rule deliver_settled)
  obtain evs where E: "E = DOWNLOAD_START # evs" "DOWNLOAD_START \<notin> set evs"
    using ok unfolding tasksOk_def E_def by blast
  have J0: "\<exists>evs'. E @ eventsOf acts = DOWNLOAD_START # evs' \<and> DOWNLOAD_START \<notin> set evs'"
  proof -
    have "DOWNLOAD_START \<notin> set (eventsOf acts)" using ev by auto
    then have "E @ eventsOf acts = DOWNLOAD_START # (evs @ eventsOf acts) \<and>
               DOWNLOAD_START \<notin> set (evs @ eventsOf acts)" using E by simp
    then show ?thesis by blast
  qed
  have J1: "terminalLast (pending ((tasks r)[k := t'] ! i)) \<and>
         (settled ((tasks r)[k := t'] ! i) = Fulfilled () \<longrightarrow>
            pending ((tasks r)[k := t'] ! i) = [] \<and>
            CHUNK_DOWNLOADED (t_start ((tasks r)[k := t'] ! i)) (t_end ((tasks r)[k := t'] ! i))
              \<in> set (E @ eventsOf acts))" if i: "i < length (tasks r)" for i
  proof (cases "i = k")
    case True
    have a: "terminalLast rest" using tl by (rule terminalLast_tl)
    have b: "rest = [] \<and> CHUNK_DOWNLOADED (t_start t) (t_end t) \<in> set (eventsOf acts)"
      if "settled t' = Fulfilled ()"
    proof -
      have "ev = End \<and> eventsOf acts = [CHUNK_DOWNLOADED (t_start t) (t_end t)]"
        using se that nf st by auto
      then show ?thesis using terminalLast_terminal[OF tl] by simp
    qed
    show ?thesis using True k a b fr st by simp
  next
    case False
    then show ?thesis using ok i unfolding tasksOk_def E_def by simp
  qed
  have J2: "\<exists>i err. i < length (tasks r) \<and> settled ((tasks r)[k := t'] ! i) = Rejected err"
    if "\<exists>err. CHUNK_DOWNLOAD_FAILED err \<in> set (E @ eventsOf acts)"
  proof -
    from that consider "\<exists>err. CHUNK_DOWNLOAD_FAILED err \<in> set E"
      | "\<exists>err. CHUNK_DOWNLOAD_FAILED err \<in> set (eventsOf acts)" by auto
    then show ?thesis
    proof cases
      case 1
      then obtain i err where i: "i < length (tasks r)" "settled (tasks r ! i) = Rejected err"
        using ok unfolding tasksOk_def E_def by blast
      show ?thesis
      proof (cases "i = k")
        case True
        then have "settled t' = Rejected err" using se st i by auto
        then show ?thesis using k by auto
      next
        case False
        then show ?thesis using i by auto
      qed
    next
      case 2
      then obtain err where "CHUNK_DOWNLOAD_FAILED err \<in> set (eventsOf (fst (deliver d t ev)))"
        unfolding acts_def by blast
      from deliver_failed_rejects[OF this] nf st
      have "\<exists>err'. settled t' = Rejected err'" unfolding t'_def by simp
      then show ?thesis using k by auto
    qed
  qed
  show ?thesis
    unfolding tasksOk_def t_def[symmetric] acts_def[symmetric] t'_def[symmetric]
    using J0 J1 J2 by (simp add: eventsOf_append E_def)
qed


lemma deliver_no_final:
  "DOWNLOAD_COMPLETE \<notin> set (eventsOf (fst (deliver d t ev)))"
  "DOWNLOAD_FAILED err \<notin> set (eventsOf (fst (deliver d t ev)))"
  using deliver_events[of d t ev] by auto

lemma inv_turn:
  assumes ok: "tasksOk r" and oc: "outcomeOk r"
  shows "tasksOk (turn d r k) \<and> outcomeOk (turn d r k)"
proof (cases "k < length (tasks r) \<and> pending (tasks r ! k) \<noteq> []")
  case False
  then have "turn d r k = r" by (intro turn_idle) auto
  then show ?thesis using assms by simp
next
  case True
  then have k: "k < length (tasks r)" by simp
  from True obtain ev rest where p: "pending (tasks r ! k) = ev # rest"
    by (cases "pending (tasks r ! k)") auto
  define t where "t = (tasks r ! k)\<lparr>pending := rest\<rparr>"
  define acts where "acts = fst (deliver d t ev)"
  define t' where "t' = snd (deliver d t ev)"
  define r1 where "r1 = r\<lparr>tasks := (tasks r)[k := t'], trace := trace r @ acts\<rparr>"
  define E where "E = eventsOf (trace r)"
  have turn: "turn d r k = afterTurn r1 k"
    unfolding r1_def t'_def acts_def t_def using k p by (rule turn_eq)
  have ok1: "tasksOk r1"
    unfolding r1_def t'_def acts_def t_def using ok k p by (rule tasksOk_deliver)
  have r1: "outcome r1 = outcome r" "tasks r1 = (tasks r)[k := t']"
    "eventsOf (trace r1) = E @ eventsOf acts" "length (tasks r1) = length (tasks r)"
    "tasks r1 ! k = t'"
    unfolding r1_def E_def using k by (simp_all add: eventsOf_append)
  have nofin: "DOWNLOAD_COMPLETE \<notin> set (eventsOf acts)" "\<And>err. DOWNLOAD_FAILED err \<notin> set (eventsOf acts)"
    unfolding acts_def by (rule deliver_no_final)+
  have nf: "settled (tasks r ! k) \<noteq> Fulfilled ()" using ok k p unfolding tasksOk_def by fastforce
  have st: "settled t = settled (tasks r ! k)" unfolding t_def by simp
  have se: "settled t' = settled t \<or> settled t = Pending"
    using deliver_settled[of d t ev] unfolding t'_def by blast
  show ?thesis
  proof (cases "outcome r")
    case (Fulfilled u)
    then have "settled (tasks r ! k) = Fulfilled ()" using oc k unfolding outcomeOk_def by simp
    then show ?thesis using nf by simp
  next
    case (Rejected err)
    then have "afterTurn r1 k = r1" using r1(1) by (intro afterTurn_settled) simp
    moreover have "outcomeOk r1"
      using oc Rejected nofin unfolding outcomeOk_def r1(1) r1(3) E_def by simp
    ultimately show ?thesis using turn ok1 by simp
  next
    case Pending
    have P: "\<And>i err. i < length (tasks r) \<Longrightarrow> settled (tasks r ! i) \<noteq> Rejected err"
      "DOWNLOAD_COMPLETE \<notin> set E" "\<And>err. DOWNLOAD_FAILED err \<notin> set E"
      using oc Pending unfolding outcomeOk_def E_def by simp_all
    have E1: "DOWNLOAD_COMPLETE \<notin> set (eventsOf (trace r1))"
      "\<And>err. DOWNLOAD_FAILED err \<notin> set (eventsOf (trace r1))"
      unfolding r1(3) using P nofin by simp_all
    have p1: "outcome r1 = Pending" using Pending r1(1) by simp
    consider (rej) err where "settled t' = Rejected err"
      | (all) "\<forall>err. settled t' \<noteq> Rejected err" "list_all (\<lambda>t. settled t = Fulfilled ()) (tasks r1)"
      | (wait) "\<forall>err. settled t' \<noteq> Rejected err" "\<not> list_all (\<lambda>t. settled t = Fulfilled ()) (tasks r1)"
      by blast
    then show ?thesis
    proof cases
      case rej
      let ?r2 = "r1\<lparr>trace := trace r1 @ [Emit (DOWNLOAD_FAILED err)], outcome := Rejected err\<rparr>"
      have a: "afterTurn r1 k = ?r2" using p1 rej r1(5) by (intro afterTurn_reject) simp_all
      have "tasksOk ?r2" using ok1 by (intro tasksOk_emit) simp_all
      moreover have "outcomeOk ?r2" using E1 unfolding outcomeOk_def by (simp add: eventsOf_append)
      ultimately show ?thesis using turn a by simp
    next
      case all
      let ?r2 = "r1\<lparr>trace := trace r1 @ [Emit DOWNLOAD_COMPLETE], outcome := Fulfilled ()\<rparr>"
      have a: "afterTurn r1 k = ?r2" using p1 all r1(5) by (intro afterTurn_complete) simp_all
      have "tasksOk ?r2" using ok1 by (intro tasksOk_emit) simp_all
      moreover have "outcomeOk ?r2"
        using E1 all(2) unfolding outcomeOk_def by (simp add: eventsOf_append list_all_length)
      ultimately show ?thesis using turn a by simp
    next
      case wait
      have a: "afterTurn r1 k = r1" using p1 wait r1(5) by (intro afterTurn_wait) simp_all
      have "settled (tasks r1 ! i) \<noteq> Rejected err" if "i < length (tasks r1)" for i err
        using that wait(1) P(1)[of i err] r1(2,4) k by (cases "i = k") simp_all
      then have "outcomeOk r1" using E1 p1 unfolding outcomeOk_def by simp
      then show ?thesis using turn a ok1 by simp
    qed
  qed
qed

lemma inv_eventLoop:
  "tasksOk r \<Longrightarrow> outcomeOk r \<Longrightarrow>
   tasksOk (eventLoop d r sched) \<and> outcomeOk (eventLoop d r sched)"
proof (induction sched arbitrary: r)
  case Nil
  then show ?case by (simp add: eventLoop_def)
next
  case (Cons k sched)
  have e: "eventLoop d r (k # sched) = eventLoop d (turn d r k) sched" by (simp add: eventLoop_def)
  show ?case unfolding e using Cons.IH inv_turn[OF Cons.prems] by blast
qed

subsection \<open>What the event loop leaves alone\<close>

text \<open>
  A turn changes neither the ranges of the tasks nor the requests sent, and it only adds
  to the trace.
\<close>

lemma afterTurn_frame:
  "tasks (afterTurn r k) = tasks r"
  "filter isGet (trace (afterTurn r k)) = filter isGet (trace r)"
  "\<exists>post. trace (afterTurn r k) = trace r @ post"
  by (cases "outcome r"; cases "settled (tasks r ! k)"; simp add: afterTurn_def)+

lemma turn_frame:
  "ranges (tasks (turn d r k)) = ranges (tasks r) \<and>
   filter isGet (trace (turn d r k)) = filter isGet (trace r) \<and>
   (\<exists>post. trace (turn d r k) = trace r @ post)"
proof (cases "k < length (tasks r) \<and> pending (tasks r ! k) \<noteq> []")
  case False
  then have "turn d r k = r" by (intro turn_idle) auto
  then show ?thesis by simp
next
  case True
  then have k: "k < length (tasks r)" by simp
  from True obtain ev rest where p: "pending (tasks r ! k) = ev # rest"
    by (cases "pending (tasks r ! k)") auto
  define t where "t = (tasks r ! k)\<lparr>pending := rest\<rparr>"
  define acts where "acts = fst (deliver d t ev)"
  define t' where "t' = snd (deliver d t ev)"
  define r1 where "r1 = r\<lparr>tasks := (tasks r)[k := t'], trace := trace r @ acts\<rparr>"
  have turn: "turn d r k = afterTurn r1 k"
    unfolding r1_def t'_def acts_def t_def using k p by (rule turn_eq)
  have f: "t_start t' = t_start (tasks r ! k)" "t_end t' = t_end (tasks r ! k)"
    unfolding t'_def t_def by (simp_all add: deliver_frame)
  have "map (\<lambda>t. (t_start t, t_end t)) ((tasks r)[k := t']) = map (\<lambda>t. (t_start t, t_end t)) (tasks r)"
    using f k by (simp add: map_update list_update_same_conv)
  then have a: "ranges (tasks r1) = ranges (tasks r)" unfolding ranges_def r1_def by simp
  have b: "filter isGet (trace r1) = filter isGet (trace r)"
    unfolding r1_def acts_def by (simp add: deliver_no_get)
  have c: "trace r1 = trace r @ acts" unfolding r1_def by simp
  obtain post where d: "trace (afterTurn r1 k) = trace r1 @ post"
    using afterTurn_frame(3)[of r1 k] by blast
  have "trace (turn d r k) = trace r @ (acts @ post)" unfolding turn d c by simp
  then show ?thesis unfolding turn afterTurn_frame(1,2) using a b by (simp add: turn)
qed

lemma eventLoop_frame:
  "ranges (tasks (eventLoop d r sched)) = ranges (tasks r) \<and>
   filter isGet (trace (eventLoop d r sched)) = filter isGet (trace r) \<and>
   (\<exists>post. trace (eventLoop d r sched) = trace r @ post)"
proof (induction sched arbitrary: r)
  case Nil
  show ?case by (simp add: eventLoop_def)
next
  case (Cons k sched)
  have e: "eventLoop d r (k # sched) = eventLoop d (turn d r k) sched" by (simp add: eventLoop_def)
  obtain p1 where 1: "trace (turn d r k) = trace r @ p1" using turn_frame[of d r k] by blast
  obtain p2 where 2: "trace (eventLoop d (turn d r k) sched) = trace (turn d r k) @ p2"
    using Cons[of "turn d r k"] by blast
  have "trace (eventLoop d (turn d r k) sched) = trace r @ (p1 @ p2)" unfolding 2 1 by simp
  then show ?case unfolding e using Cons[of "turn d r k"] turn_frame[of d r k] by simp
qed

subsection \<open>Launching the requests\<close>

lemma startAll_gets: "concat (map fst (startAll d fs chunks)) = map (getOf d) chunks"
  by (induction chunks arbitrary: fs) (simp_all add: downloadChunk_def getOf_def)

lemma startAll_ranges: "ranges (map snd (startAll d fs chunks)) = map (\<lambda>c. (start c, end' c)) chunks"
  by (induction chunks arbitrary: fs) (simp_all add: downloadChunk_def ranges_def)

lemma startAll_fresh:
  "t \<in> set (map snd (startAll d fs chunks)) \<Longrightarrow>
   settled t = Pending \<and> terminalLast (pending t)"
  by (induction chunks arbitrary: fs) (auto simp: downloadChunk_def terminalLast_script)

lemma eventsOf_gets: "eventsOf (map (getOf d) chunks) = []"
  by (induction chunks) (simp_all add: getOf_def)

lemma filter_gets: "filter isGet (map (getOf d) chunks) = map (getOf d) chunks"
  by (induction chunks) (simp_all add: getOf_def)

lemma launch_ok:
  assumes "eventsOf tr = [DOWNLOAD_START]"
  shows "tasksOk (awaitAll (launch d fs tr chunks)) \<and> outcomeOk (awaitAll (launch d fs tr chunks))"
proof -
  let ?r = "launch d fs tr chunks"
  have ev: "eventsOf (trace ?r) = [DOWNLOAD_START]"
    using assms by (simp add: launch_def startAll_gets eventsOf_append eventsOf_gets)
  have fresh: "settled (tasks ?r ! i) = Pending \<and> terminalLast (pending (tasks ?r ! i))"
    if "i < length (tasks ?r)" for i
  proof -
    have "tasks ?r ! i \<in> set (map snd (startAll d fs chunks))"
      using that unfolding launch_def by (metis nth_mem run.select_convs(1))
    then show ?thesis by (rule startAll_fresh)
  qed
  have ok: "tasksOk ?r" unfolding tasksOk_def using ev fresh by simp
  have oc: "outcomeOk ?r" unfolding outcomeOk_def using ev fresh by (simp add: launch_def)
  show ?thesis
  proof (cases "tasks ?r = []")
    case False
    then show ?thesis using ok oc by (simp add: awaitAll_def)
  next
    case True
    let ?r2 = "?r\<lparr>trace := trace ?r @ [Emit DOWNLOAD_COMPLETE], outcome := Fulfilled ()\<rparr>"
    have a: "awaitAll ?r = ?r2" using True by (simp add: awaitAll_def)
    have "tasksOk ?r2" using ok by (intro tasksOk_emit) simp_all
    moreover have "outcomeOk ?r2" unfolding outcomeOk_def using ev True by (simp add: eventsOf_append)
    ultimately show ?thesis unfolding a by simp
  qed
qed

lemma awaitAll_frame:
  "tasks (awaitAll r) = tasks r"
  "filter isGet (trace (awaitAll r)) = filter isGet (trace r)"
  "\<exists>post. trace (awaitAll r) = trace r @ post"
  by (simp_all add: awaitAll_def)

lemma fetchPhase:
  fixes d :: downloadr and fs :: "fetch list" and chunks :: "chunk list" and sched :: "nat list"
  assumes "eventsOf tr = [DOWNLOAD_START]" "filter isGet tr = []"
  defines "r \<equiv> eventLoop d (awaitAll (launch d fs tr chunks)) sched"
  shows "tasksOk r" and "outcomeOk r"
    and "ranges (tasks r) = map (\<lambda>c. (start c, end' c)) chunks"
    and "filter isGet (trace r) = map (getOf d) chunks"
    and "\<exists>post. trace r = tr @ map (getOf d) chunks @ post"
proof -
  let ?l = "launch d fs tr chunks"
  show "tasksOk r" "outcomeOk r"
    unfolding r_def using launch_ok[OF assms(1), of d fs chunks] inv_eventLoop by blast+
  have t: "trace ?l = tr @ map (getOf d) chunks" by (simp add: launch_def startAll_gets)
  show "ranges (tasks r) = map (\<lambda>c. (start c, end' c)) chunks"
    unfolding r_def using eventLoop_frame[of d "awaitAll ?l" sched]
    by (simp add: awaitAll_frame launch_def startAll_ranges)
  show "filter isGet (trace r) = map (getOf d) chunks"
    unfolding r_def using eventLoop_frame[of d "awaitAll ?l" sched] assms(2)
    by (simp add: awaitAll_frame t filter_gets)
  obtain p1 where 1: "trace (awaitAll ?l) = trace ?l @ p1" using awaitAll_frame(3) by blast
  obtain p2 where 2: "trace r = trace (awaitAll ?l) @ p2"
    unfolding r_def using eventLoop_frame[of d "awaitAll ?l" sched] by blast
  have "trace r = tr @ map (getOf d) chunks @ (p1 @ p2)" unfolding 2 1 t by simp
  then show "\<exists>post. trace r = tr @ map (getOf d) chunks @ post" by blast
qed

subsection \<open>After size discovery\<close>

text \<open>
  The size is a number or \<open>NaN\<close>, the other fields of the instance are kept, and
  \<open>getChunks\<close> returns for the size and the chunk count that size discovery leaves, with
  ranges whose bounds are integers. So \<open>download\<close> is total.
\<close>

lemma parseInt_cases: "parseInt x = NaN \<or> (\<exists>n. parseInt x = Num n)"
  by (simp add: parseInt_def Let_def)

lemma onProbeResponse_size:
  "fst (onProbeResponse d res) = NaN \<or> (\<exists>n. fst (onProbeResponse d res) = Num n)"
proof (cases "sizeMatch (content_range res)")
  case (Some t)
  then show ?thesis using size_matched[OF Some, of d] parseInt_cases[of t] by simp
next
  case None
  show ?thesis
  proof (cases "content_length res = None \<or> content_length res = Some []")
    case True
    then show ?thesis using size_unknown[OF None True, of d] by simp
  next
    case False
    then obtain cl where "content_length res = Some cl" "cl \<noteq> []" by auto
    then show ?thesis using size_content_length[OF None, of cl d] parseInt_cases[of cl] by simp
  qed
qed

lemma onProbeResponse_frame:
  "url (snd (onProbeResponse d res)) = url d"
  "outputPath (snd (onProbeResponse d res)) = outputPath d"
  "highWaterMark (snd (onProbeResponse d res)) = highWaterMark d"
  by (simp_all add: onProbeResponse_def Let_def split: option.splits)

lemma getFileSize_Fulfilled:
  assumes "getFileSize d p = Fulfilled (fileSize, d')"
  shows "\<exists>res. p = ProbeResponse res \<and> onProbeResponse d res = (fileSize, d')"
  using assms by (cases p) (simp_all add: getFileSize_def)

lemma getFileSize_frame:
  assumes "getFileSize d p = Fulfilled (fileSize, d')"
  shows "url d' = url d" "outputPath d' = outputPath d" "highWaterMark d' = highWaterMark d"
proof -
  obtain res where r: "onProbeResponse d res = (fileSize, d')"
    using getFileSize_Fulfilled[OF assms] by blast
  show "url d' = url d" "outputPath d' = outputPath d" "highWaterMark d' = highWaterMark d"
    using onProbeResponse_frame[of d res] r by simp_all
qed

lemma planned_Num: "\<exists>s e. planned fs cs i k = \<lparr>start = Num s, end' = Num e\<rparr>"
  by (simp add: planned_def)

lemma getChunks_after_discovery:
  assumes "onProbeResponse d res = (fileSize, d')"
  shows "\<exists>chunks. getChunks d' fileSize = Some chunks \<and>
           (\<forall>c\<in>set chunks. \<exists>s e. c = \<lparr>start = Num s, end' = Num e\<rparr>)"
proof -
  have cc: "chunkCount d' =
     (if js_lt fileSize (Num 104857600) then Num 1 else ceil_div fileSize (Num 104857600))"
    using chunkCount_resolved[of d res] assms by simp
  consider "fileSize = NaN" | n where "fileSize = Num n" "n \<le> 0" | n where "fileSize = Num n" "1 \<le> n"
    using onProbeResponse_size[of d res] assms by fastforce
  then show ?thesis
  proof cases
    case 1
    then have "getChunks d' fileSize = Some []"
      unfolding getChunks_def by (intro chunksLoop_not_entered) simp
    then show ?thesis by simp
  next
    case 2
    then have "getChunks d' fileSize = Some []"
      unfolding getChunks_def by (intro chunksLoop_not_entered) simp
    then show ?thesis by simp
  next
    case 3
    define c where "c = (if n < 104857600 then 1 else - ((- n) div 104857600))"
    have c1: "1 \<le> c"
    proof (cases "n < 104857600")
      case True
      then show ?thesis unfolding c_def by simp
    next
      case False
      have "1 \<le> - ((- n) div 104857600)" using 3(2) by (intro ceil_pos) simp_all
      then show ?thesis unfolding c_def using False by simp
    qed
    have "chunkCount d' = Num c" unfolding cc c_def using 3(1) by simp
    from getChunks_closed[OF this c1 3(2)] 3(1) planned_Num show ?thesis by auto
  qed
qed

lemma download_total: "\<exists>r. download d e = Some r"
proof (cases "getFileSize d (probe e)")
  case Pending
  then show ?thesis by (simp add: download_def)
next
  case (Rejected err)
  then show ?thesis by (simp add: download_def)
next
  case (Fulfilled x)
  obtain fileSize d' where x: "x = (fileSize, d')" by (cases x)
  obtain res where "onProbeResponse d res = (fileSize, d')"
    using getFileSize_Fulfilled Fulfilled x by blast
  then obtain chunks where "getChunks d' fileSize = Some chunks"
    using getChunks_after_discovery by blast
  then show ?thesis using Fulfilled x
    by (simp add: download_def Let_def split: option.splits)
qed


lemma download_multi:
  assumes "getFileSize d (probe e) = Fulfilled (fileSize, d')"
    and "\<not> (fileSize = Num (- 1) \<or> chunkCount d' = Num 1)"
    and "openSync e = None" "ftruncateSync e = None" "closeSync e = None"
    and "getChunks d' fileSize = Some chunks"
  shows "download d e =
    Some (eventLoop d'
            (awaitAll (launch d' (fetches e)
               [Request (url d) ''GET'' ''bytes=0-0'',
                ConsoleLog (''File size: '' @ showNumber fileSize @ '' bytes''),
                OpenSync (outputPath d) ''w'', FtruncateSync fileSize, CloseSync,
                Emit DOWNLOAD_START]
               chunks))
            (schedule e))"
  using assms getFileSize_frame(2)[OF assms(1)] by (simp add: download_def)

lemma download_prealloc_throws:
  assumes "getFileSize d (probe e) = Fulfilled (fileSize, d')"
    and "\<not> (fileSize = Num (- 1) \<or> chunkCount d' = Num 1)"
    and "openSync e \<noteq> None \<or> ftruncateSync e \<noteq> None \<or> closeSync e \<noteq> None"
  shows "\<exists>tr err. download d e = Some (failed tr (SystemError err)) \<and>
           eventsOf tr = [] \<and> list_all (\<lambda>a. \<not> isGet a \<and> \<not> isWrite a) tr"
  using assms by (auto simp: download_def Let_def split: option.splits)





lemma parseInt_200000000: "parseInt ''200000000'' = Num 200000000"
  by code_simp

lemma probe_200MB:
  "getFileSize d (ProbeResponse \<lparr>content_range = None, content_length = Some ''200000000''\<rparr>) =
     Fulfilled (Num 200000000, d\<lparr>chunkCount := Num 2\<rparr>)"
  by (simp add: getFileSize_def onProbeResponse_def sizeMatch_def parseInt_200000000)

subsection \<open>One call of downloadChunk\<close>

lemma feed_deaf:
  "\<not> listening t \<Longrightarrow> list_all (\<lambda>ev. \<forall>st err. ev \<noteq> Response st \<and> ev \<noteq> ReqError err) evs \<Longrightarrow>
   feed d t evs = t"
proof (induction evs)
  case Nil
  show ?case by simp
next
  case (Cons ev evs)
  then have "snd (deliver d t ev) = t" by (cases ev) simp_all
  then show ?case using Cons by simp
qed

lemma feed_no_status_error:
  "listening t \<Longrightarrow> \<forall>m. settled t \<noteq> Rejected (Error m) \<Longrightarrow>
   list_all (\<lambda>ev. \<forall>st. ev \<noteq> Response st) evs \<Longrightarrow>
   settled (feed d t evs) \<noteq> Rejected (Error m')"
proof (induction evs arbitrary: t)
  case Nil
  then show ?case by simp
next
  case (Cons ev evs)
  have "listening (snd (deliver d t ev)) \<and> (\<forall>m. settled (snd (deliver d t ev)) \<noteq> Rejected (Error m))"
    using Cons.prems by (cases ev; cases "settled t"; simp add: resolve_def reject_def)
  then show ?case using Cons by simp
qed

lemma script_tail:
  "list_all (\<lambda>ev. \<forall>st err. ev \<noteq> Response st \<and> ev \<noteq> ReqError err) (tl (script (Responds st body en)))"
  by (cases en) (simp_all add: list_all_iff)

lemma script_Responds: "script (Responds st body en) = Response st # tl (script (Responds st body en))"
  by (cases en) simp_all

lemma chunkPromise_bad_status:
  assumes "st \<noteq> 200" "st \<noteq> 206"
  shows "chunkPromise d s e (Responds st body en) =
           Rejected (Error (''Unexpected status code: '' @ showNumber (Num st)))"
proof -
  define t0 where "t0 = snd (downloadChunk d s e (Responds st body en))"
  define t1 where "t1 = reject (Error (''Unexpected status code: '' @ showNumber (Num st))) t0"
  define rest where "rest = tl (script (Responds st body en))"
  have sc: "script (Responds st body en) = Response st # rest"
    unfolding rest_def by (rule script_Responds)
  have q: "list_all (\<lambda>ev. \<forall>st err. ev \<noteq> Response st \<and> ev \<noteq> ReqError err) rest"
    unfolding rest_def by (rule script_tail)
  have a: "\<not> listening t1" "settled t1 = Rejected (Error (''Unexpected status code: '' @ showNumber (Num st)))"
    unfolding t1_def t0_def by (simp_all add: downloadChunk_def reject_def)
  have "snd (deliver d t0 (Response st)) = t1" unfolding t1_def using assms by simp
  then have "feed d t0 (Response st # rest) = feed d t1 rest" by (simp only: feed.simps)
  also have "\<dots> = t1" using a(1) q by (rule feed_deaf)
  finally show ?thesis unfolding chunkPromise_def t0_def[symmetric] sc using a(2) by simp
qed

lemma chunkPromise_good_status:
  assumes "st = 200 \<or> st = 206"
  shows "chunkPromise d s e (Responds st body en) \<noteq> Rejected (Error m)"
proof -
  define t0 where "t0 = snd (downloadChunk d s e (Responds st body en))"
  define t1 where "t1 = t0\<lparr>listening := True\<rparr>"
  define rest where "rest = tl (script (Responds st body en))"
  have sc: "script (Responds st body en) = Response st # rest"
    unfolding rest_def by (rule script_Responds)
  have b: "list_all (\<lambda>ev. \<forall>st. ev \<noteq> Response st) rest"
    unfolding rest_def using script_tail[of st body en] by (simp add: list_all_iff)
  have a: "listening t1" "\<forall>m. settled t1 \<noteq> Rejected (Error m)"
    unfolding t1_def t0_def by (simp_all add: downloadChunk_def)
  have "snd (deliver d t0 (Response st)) = t1" unfolding t1_def using assms
    by (elim disjE) simp_all
  then have "feed d t0 (Response st # rest) = feed d t1 rest" by (simp only: feed.simps)
  then show ?thesis
    unfolding chunkPromise_def t0_def[symmetric] sc using feed_no_status_error[OF a b] by simp
qed

lemma chunkPromise_no_response:
  "chunkPromise d s e NoResponse = Pending"
  "chunkPromise d s e (RequestFails err) = Rejected (SystemError err)"
  by (simp_all add: chunkPromise_def downloadChunk_def reject_def)

subsection \<open>The order of the events\<close>



subsection \<open>Example runs\<close>

lemma showNumber_404: "showNumber (Num 404) = ''404''"
  by code_simp

lemma chunkPromise_200:
  "chunkPromise mockDownloader (Num 0) Infinity (Responds 200 [''abc''] Ends) = Fulfilled ()"
  by (simp add: chunkPromise_def downloadChunk_def resolve_def)


lemma run_notFound:
  "emitted (download mockDownloader notFoundEnv) =
     [DOWNLOAD_START, DOWNLOAD_FAILED (Error ''Unexpected status code: 404''),
      CHUNK_DOWNLOADED (Num 100000000) (Num 199999999)]"
  by code_simp

lemma run_notFound_outcome:
  "outcomeOf (download mockDownloader notFoundEnv) =
     Rejected (Error ''Unexpected status code: 404'')"
  by code_simp


section \<open>Claims about runs\<close>

text \<open>
  Claim C6. A call of \<open>downloadChunk\<close> ends rejected with an error of the program's own
  making exactly when the response has a status other than 200 and 206, and that error
  has the message \<open>Unexpected status code: <status>\<close>; for a response with status 200 or
  206 no such error is raised.
\<close>

theorem downloadChunk_status_error:
  "((\<exists>m. chunkPromise d startPos endPos f = Rejected (Error m)) =
      (\<exists>st body en. f = Responds st body en \<and> st \<noteq> 200 \<and> st \<noteq> 206)) \<and>
   (st \<noteq> 200 \<and> st \<noteq> 206 \<longrightarrow>
      chunkPromise d startPos endPos (Responds st body en) =
        Rejected (Error (''Unexpected status code: '' @ showNumber (Num st)))) \<and>
   (st = 200 \<or> st = 206 \<longrightarrow>
      (\<forall>m. chunkPromise d startPos endPos (Responds st body en) \<noteq> Rejected (Error m)))"
proof (intro conjI impI allI)
  show "(\<exists>m. chunkPromise d startPos endPos f = Rejected (Error m)) =
      (\<exists>st body en. f = Responds st body en \<and> st \<noteq> 200 \<and> st \<noteq> 206)"
  proof (cases f)
    case NoResponse
    then show ?thesis by (simp add: chunkPromise_no_response)
  next
    case (RequestFails err)
    then show ?thesis by (simp add: chunkPromise_no_response)
  next
    case (Responds st' body' en')
    show ?thesis
    proof (cases "st' = 200 \<or> st' = 206")
      case True
      then show ?thesis using Responds chunkPromise_good_status[OF True] by auto
    next
      case False
      then show ?thesis using Responds chunkPromise_bad_status[of st'] by auto
    qed
  qed
next
  assume "st \<noteq> 200 \<and> st \<noteq> 206"
  then show "chunkPromise d startPos endPos (Responds st body en) =
        Rejected (Error (''Unexpected status code: '' @ showNumber (Num st)))"
    by (intro chunkPromise_bad_status) simp_all
next
  fix m assume "st = 200 \<or> st = 206"
  then show "chunkPromise d startPos endPos (Responds st body en) \<noteq> Rejected (Error m)"
    by (rule chunkPromise_good_status)
qed

theorem downloadChunk_status_error_witness:
  "chunkPromise mockDownloader (Num 0) Infinity (Responds 404 [] Stalls) =
     Rejected (Error ''Unexpected status code: 404'') \<and>
   (\<exists>m. chunkPromise mockDownloader (Num 0) Infinity (Responds 404 [] Stalls) =
     Rejected (Error m)) \<and>
   chunkPromise mockDownloader (Num 0) Infinity (Responds 200 [''abc''] Ends) = Fulfilled () \<and>
   chunkPromise mockDownloader (Num 0) Infinity (Responds 200 [''abc''] Ends) \<noteq>
     Rejected (Error ''Unexpected status code: 200'')"
proof -
  note t = downloadChunk_status_error[of mockDownloader "Num 0" Infinity
      "Responds 404 [] Stalls" 404 "[]" Stalls]
  note u = downloadChunk_status_error[of mockDownloader "Num 0" Infinity
      "Responds 200 [''abc''] Ends" 200 "[''abc'']" Ends]
  have h: "(404::int) \<noteq> 200 \<and> (404::int) \<noteq> 206" by simp
  from t[THEN conjunct2, THEN conjunct1] h
  have "chunkPromise mockDownloader (Num 0) Infinity (Responds 404 [] Stalls) =
     Rejected (Error (''Unexpected status code: '' @ showNumber (Num 404)))"
    by (rule mp)
  then have a: "chunkPromise mockDownloader (Num 0) Infinity (Responds 404 [] Stalls) =
     Rejected (Error ''Unexpected status code: 404'')"
    by (simp only: showNumber_404 append.simps)
  have "\<exists>st body en. Responds 404 [] Stalls = Responds st body en \<and> st \<noteq> 200 \<and> st \<noteq> 206"
    by simp
  then have b: "\<exists>m. chunkPromise mockDownloader (Num 0) Infinity (Responds 404 [] Stalls) =
     Rejected (Error m)"
    using t[THEN conjunct1] by (rule iffD2[rotated])
  have k: "(200::int) = 200 \<or> (200::int) = 206" by simp
  from u[THEN conjunct2, THEN conjunct2] k
  have "\<forall>m. chunkPromise mockDownloader (Num 0) Infinity (Responds 200 [''abc''] Ends) \<noteq>
     Rejected (Error m)"
    by (rule mp)
  then have c: "chunkPromise mockDownloader (Num 0) Infinity (Responds 200 [''abc''] Ends) \<noteq>
     Rejected (Error ''Unexpected status code: 200'')"
    by (rule spec)
  show ?thesis by (intro conjI) (rule a, rule b, rule chunkPromise_200, rule c)
qed



text \<open>
  Claim C8. In a run with a known size \<open>s\<close> other than \<open>-1\<close> and a chunk count other than
  1, the run opens the output path with flag \<open>w\<close>, truncates the descriptor to \<open>s\<close> bytes
  and closes it before anything else happens to the file: every request for a chunk and
  every write stream, pipe or write comes later in the trace than these three calls. When
  one of the calls throws, no request and no write happens at all.
\<close>

theorem download_preallocates_first:
  "getFileSize d (probe e) = Fulfilled (Num s, d') \<and> s \<noteq> - 1 \<and> chunkCount d' \<noteq> Num 1 \<longrightarrow>
     (\<exists>r. download d e = Some r \<and>
        (openSync e = None \<and> ftruncateSync e = None \<and> closeSync e = None \<longrightarrow>
           (\<exists>rest. trace r =
              [Request (url d) ''GET'' ''bytes=0-0'',
               ConsoleLog (''File size: '' @ showNumber (Num s) @ '' bytes''),
               OpenSync (outputPath d) ''w'', FtruncateSync (Num s), CloseSync,
               Emit DOWNLOAD_START] @ rest)) \<and>
        (openSync e \<noteq> None \<or> ftruncateSync e \<noteq> None \<or> closeSync e \<noteq> None \<longrightarrow>
           list_all (\<lambda>a. \<not> isGet a \<and> \<not> isWrite a) (trace r) \<and>
           (\<exists>err. outcome r = Rejected (SystemError err))) \<and>
        (\<forall>n. n < length (trace r) \<and> (isGet (trace r ! n) \<or> isWrite (trace r ! n)) \<longrightarrow>
           2 < n \<and> trace r ! 2 = OpenSync (outputPath d) ''w'' \<and>
           3 < n \<and> trace r ! 3 = FtruncateSync (Num s) \<and>
           4 < n \<and> trace r ! 4 = CloseSync))"
proof (intro impI)
  assume a: "getFileSize d (probe e) = Fulfilled (Num s, d') \<and> s \<noteq> - 1 \<and> chunkCount d' \<noteq> Num 1"
  then have g: "getFileSize d (probe e) = Fulfilled (Num s, d')"
    and m: "\<not> (Num s = Num (- 1) \<or> chunkCount d' = Num 1)" by simp_all
  obtain r where r: "download d e = Some r" using download_total by blast
  define pre where "pre =
     [Request (url d) ''GET'' ''bytes=0-0'',
      ConsoleLog (''File size: '' @ showNumber (Num s) @ '' bytes''),
      OpenSync (outputPath d) ''w'', FtruncateSync (Num s), CloseSync,
      Emit DOWNLOAD_START]"
  have len: "length pre = 6" and quiet: "list_all (\<lambda>a. \<not> isGet a \<and> \<not> isWrite a) pre"
    and at: "pre ! 2 = OpenSync (outputPath d) ''w''" "pre ! 3 = FtruncateSync (Num s)"
      "pre ! 4 = CloseSync"
    and ev: "eventsOf pre = [DOWNLOAD_START]" and ng: "filter isGet pre = []"
    unfolding pre_def by simp_all
  have ok: "\<exists>rest. trace r = pre @ rest"
    if p: "openSync e = None \<and> ftruncateSync e = None \<and> closeSync e = None"
  proof -
    obtain res where "onProbeResponse d res = (Num s, d')"
      using getFileSize_Fulfilled[OF g] by blast
    then obtain chunks where c: "getChunks d' (Num s) = Some chunks"
      using getChunks_after_discovery by blast
    let ?r = "eventLoop d' (awaitAll (launch d' (fetches e) pre chunks)) (schedule e)"
    have "download d e = Some ?r"
      unfolding pre_def
      using g m p[THEN conjunct1] p[THEN conjunct2, THEN conjunct1]
        p[THEN conjunct2, THEN conjunct2] c by (rule download_multi)
    then have rr: "r = ?r" using r by simp
    have "\<exists>post. trace ?r = pre @ map (getOf d') chunks @ post"
      using ev ng by (rule fetchPhase(5))
    then show ?thesis unfolding rr by blast
  qed
  have bad: "list_all (\<lambda>a. \<not> isGet a \<and> \<not> isWrite a) (trace r) \<and>
           (\<exists>err. outcome r = Rejected (SystemError err))"
    if p: "openSync e \<noteq> None \<or> ftruncateSync e \<noteq> None \<or> closeSync e \<noteq> None"
  proof -
    obtain tr err where t: "download d e = Some (failed tr (SystemError err))"
      "list_all (\<lambda>a. \<not> isGet a \<and> \<not> isWrite a) tr"
      using download_prealloc_throws[OF g m p] by blast
    then have "r = failed tr (SystemError err)" using r by simp
    then show ?thesis using t(2) by (simp add: failed_def)
  qed
  have ord: "2 < n \<and> trace r ! 2 = OpenSync (outputPath d) ''w'' \<and>
           3 < n \<and> trace r ! 3 = FtruncateSync (Num s) \<and>
           4 < n \<and> trace r ! 4 = CloseSync"
    if n: "n < length (trace r) \<and> (isGet (trace r ! n) \<or> isWrite (trace r ! n))" for n
  proof (cases "openSync e = None \<and> ftruncateSync e = None \<and> closeSync e = None")
    case True
    then obtain rest where t: "trace r = pre @ rest" using ok by blast
    have low: "trace r ! i = pre ! i" if "i < 6" for i
      unfolding t using that len by (simp add: nth_append)
    have "\<not> n < 6"
    proof
      assume n6: "n < 6"
      then have "\<not> isGet (pre ! n) \<and> \<not> isWrite (pre ! n)"
        using quiet len by (simp add: list_all_length)
      then show False using n low[OF n6] by simp
    qed
    then have "5 < n" by simp
    then show ?thesis using low[of 2] low[of 3] low[of 4] at by simp
  next
    case False
    then have "list_all (\<lambda>a. \<not> isGet a \<and> \<not> isWrite a) (trace r)" using bad by blast
    then have "\<not> isGet (trace r ! n) \<and> \<not> isWrite (trace r ! n)"
      using n by (simp add: list_all_length)
    then show ?thesis using n by simp
  qed
  show "\<exists>r. download d e = Some r \<and>
        (openSync e = None \<and> ftruncateSync e = None \<and> closeSync e = None \<longrightarrow>
           (\<exists>rest. trace r =
              [Request (url d) ''GET'' ''bytes=0-0'',
               ConsoleLog (''File size: '' @ showNumber (Num s) @ '' bytes''),
               OpenSync (outputPath d) ''w'', FtruncateSync (Num s), CloseSync,
               Emit DOWNLOAD_START] @ rest)) \<and>
        (openSync e \<noteq> None \<or> ftruncateSync e \<noteq> None \<or> closeSync e \<noteq> None \<longrightarrow>
           list_all (\<lambda>a. \<not> isGet a \<and> \<not> isWrite a) (trace r) \<and>
           (\<exists>err. outcome r = Rejected (SystemError err))) \<and>
        (\<forall>n. n < length (trace r) \<and> (isGet (trace r ! n) \<or> isWrite (trace r ! n)) \<longrightarrow>
           2 < n \<and> trace r ! 2 = OpenSync (outputPath d) ''w'' \<and>
           3 < n \<and> trace r ! 3 = FtruncateSync (Num s) \<and>
           4 < n \<and> trace r ! 4 = CloseSync)"
    unfolding pre_def[symmetric]
  proof (intro exI[of _ r] conjI)
    show "download d e = Some r" by (rule r)
    show "openSync e = None \<and> ftruncateSync e = None \<and> closeSync e = None \<longrightarrow>
           (\<exists>rest. trace r = pre @ rest)" using ok by (intro impI)
    show "openSync e \<noteq> None \<or> ftruncateSync e \<noteq> None \<or> closeSync e \<noteq> None \<longrightarrow>
           list_all (\<lambda>a. \<not> isGet a \<and> \<not> isWrite a) (trace r) \<and>
           (\<exists>err. outcome r = Rejected (SystemError err))" using bad by (intro impI)
    show "\<forall>n. n < length (trace r) \<and> (isGet (trace r ! n) \<or> isWrite (trace r ! n)) \<longrightarrow>
           2 < n \<and> trace r ! 2 = OpenSync (outputPath d) ''w'' \<and>
           3 < n \<and> trace r ! 3 = FtruncateSync (Num s) \<and>
           4 < n \<and> trace r ! 4 = CloseSync" using ord by (intro allI impI)
  qed
qed

theorem download_preallocates_first_witness:
  "\<exists>r rest. download mockDownloader twoChunkEnv = Some r \<and>
     trace r =
       [Request (url mockDownloader) ''GET'' ''bytes=0-0'',
        ConsoleLog (''File size: '' @ showNumber (Num 200000000) @ '' bytes''),
        OpenSync (outputPath mockDownloader) ''w'', FtruncateSync (Num 200000000), CloseSync,
        Emit DOWNLOAD_START] @ rest"
proof -
  have h: "getFileSize mockDownloader (probe twoChunkEnv) =
              Fulfilled (Num 200000000, mockDownloader\<lparr>chunkCount := Num 2\<rparr>) \<and>
           (200000000::int) \<noteq> - 1 \<and>
           chunkCount (mockDownloader\<lparr>chunkCount := Num 2\<rparr>) \<noteq> Num 1"
    by (simp add: twoChunkEnv_def probe_200MB)
  have p: "openSync twoChunkEnv = None \<and> ftruncateSync twoChunkEnv = None \<and>
            closeSync twoChunkEnv = None"
    by (simp add: twoChunkEnv_def)
  from download_preallocates_first[of mockDownloader twoChunkEnv 200000000
      "mockDownloader\<lparr>chunkCount := Num 2\<rparr>", THEN mp, OF h]
  obtain r where r: "download mockDownloader twoChunkEnv = Some r"
    and t: "openSync twoChunkEnv = None \<and> ftruncateSync twoChunkEnv = None \<and>
        closeSync twoChunkEnv = None \<longrightarrow>
      (\<exists>rest. trace r =
       [Request (url mockDownloader) ''GET'' ''bytes=0-0'',
        ConsoleLog (''File size: '' @ showNumber (Num 200000000) @ '' bytes''),
        OpenSync (outputPath mockDownloader) ''w'', FtruncateSync (Num 200000000), CloseSync,
        Emit DOWNLOAD_START] @ rest)"
    by (elim exE conjE)
  from t p have "\<exists>rest. trace r =
       [Request (url mockDownloader) ''GET'' ''bytes=0-0'',
        ConsoleLog (''File size: '' @ showNumber (Num 200000000) @ '' bytes''),
        OpenSync (outputPath mockDownloader) ''w'', FtruncateSync (Num 200000000), CloseSync,
        Emit DOWNLOAD_START] @ rest"
    by (rule mp)
  with r show ?thesis by blast
qed




text \<open>
  Claim C5. A file of 200000000 bytes is fetched in two chunks; the first request is
  answered with status 404, the second with 206 and an empty body. \<open>download\<close> is rejected
  with \<open>Unexpected status code: 404\<close>, and \<open>DOWNLOAD_FAILED\<close> is emitted with that error,
  but no \<open>CHUNK_DOWNLOAD_FAILED\<close> is emitted: the response callback rejects without
  emitting, unlike the two \<open>error\<close> listeners. For any call of \<open>downloadChunk\<close>, a
  response with status 404 makes the callback do nothing to the outside.
\<close>

theorem download_404_emits_no_chunk_failure:
  "emitted (download mockDownloader notFoundEnv) =
     [DOWNLOAD_START, DOWNLOAD_FAILED (Error ''Unexpected status code: 404''),
      CHUNK_DOWNLOADED (Num 100000000) (Num 199999999)] \<and>
   outcomeOf (download mockDownloader notFoundEnv) =
     Rejected (Error ''Unexpected status code: 404'') \<and>
   fst (deliver d t (Response 404)) = []"
  by (intro conjI) (rule run_notFound, rule run_notFound_outcome, simp)

text \<open>
  Claim C9. The probe's response has no size header, so the file is fetched with one
  request; the body \<open>abc\<close> arrives with status 200. The run opens the output path only
  through \<open>createWriteStream\<close> with flag \<open>r+\<close>, which neither creates nor truncates a
  file, and hands the bytes to that stream: no \<open>openSync\<close> with flag \<open>w\<close> comes before the
  write, as it does in a run with several chunks.
\<close>

theorem download_single_never_creates_file:
  "performed (download mockDownloader noSizeEnv) =
     [Request ''https://example.com/file.zip'' ''GET'' ''bytes=0-0'',
      Emit DOWNLOAD_START,
      Get ''https://example.com/file.zip'' None,
      CreateWriteStream ''/path/to/file.zip'' (Num 0) ''r+'' (Num 65536),
      Pipe (Num 0),
      StreamWrite (Num 0) ''abc'',
      Emit (CHUNK_DOWNLOAD_PROGRESS (Num 0) Infinity ''abc''),
      Emit (CHUNK_DOWNLOADED (Num 0) Infinity),
      Emit DOWNLOAD_COMPLETE]"
  by code_simp

end
